theory Spec2Isabelle
  imports Complex_Main "HOL-Library.Char_ord" "HOL-Library.List_Lexorder"
begin

section \<open>Numbers\<close>

text \<open>
  JavaScript numbers are modelled as reals with exact arithmetic: comparisons, sums and
  products are those of the source, without the rounding of IEEE doubles. The numbers
  given as inputs at the concrete points below are dyadic, so doubles hold them exactly.
  Where the source rounds a sum or a product to a double before \<open>toFixed\<close> (the
  coordinates of \<open>cell_point\<close>, all of \<open>storm_point\<close> and \<open>background_point\<close>), the
  theorems that hold for every input state bounds and distances with a margin, not
  equations for the emitted decimal.

  \<open>parseFloat(x.toFixed(f))\<close> rounds \<open>x\<close> to \<open>f\<close> decimals. \<open>toFixed\<close> works on
  the magnitude, takes the integer \<open>n\<close> with \<open>n / 10^f\<close> closest to it, the larger one
  on a tie, and puts the sign back; from \<open>10^21\<close> on it prints the number itself.
\<close>

definition round_half_up :: "real \<Rightarrow> int" where
  "round_half_up y = \<lfloor>y + 1 / 2\<rfloor>"

definition toFixed :: "nat \<Rightarrow> real \<Rightarrow> real" where
  "toFixed f x =
     (if \<bar>x\<bar> \<ge> 10 ^ 21 then x
      else if x < 0 then - (of_int (round_half_up (- x * 10 ^ f)) / 10 ^ f)
      else of_int (round_half_up (x * 10 ^ f)) / 10 ^ f)"

section \<open>Samples and the grid\<close>

record sample =
  lat :: real
  lon :: real
  val :: real

text \<open>The bounding box \<open>grid\<close> of \<open>parseGRIB2Buffer\<close>.\<close>

definition minLat :: real where "minLat = 20"
definition maxLat :: real where "maxLat = 55"
definition minLon :: real where "minLon = - 130"
definition maxLon :: real where "maxLon = - 60"

definition sampleRate :: nat where "sampleRate = 25"

text \<open>
  One decoded GRIB2 message, as \<open>parseGRIB2Buffer\<close> reads it: \<open>header.ni\<close> and
  \<open>header.nj\<close> (absent is \<open>None\<close>) and the flat \<open>data\<close> array.
\<close>

record message =
  header_ni :: "nat option"
  header_nj :: "nat option"
  msg_data :: "real list"

text \<open>\<open>h || d\<close> on a count: an absent or zero header field gives the default.\<close>

definition or_default :: "nat option \<Rightarrow> nat \<Rightarrow> nat" where
  "or_default h d = (case h of None \<Rightarrow> d | Some n \<Rightarrow> if n = 0 then d else n)"

section \<open>The projector: the loops of parseGRIB2Buffer\<close>

definition latStep :: "nat \<Rightarrow> real" where
  "latStep nj = (maxLat - minLat) / real nj"

definition lonStep :: "nat \<Rightarrow> real" where
  "lonStep ni = (maxLon - minLon) / real ni"

text \<open>The point pushed for cell \<open>(j, i)\<close> with value \<open>v\<close>.\<close>

definition cell_point :: "nat \<Rightarrow> nat \<Rightarrow> nat \<Rightarrow> nat \<Rightarrow> real \<Rightarrow> sample" where
  "cell_point ni nj j i v =
     \<lparr>lat = toFixed 4 (minLat + real j * latStep nj),
      lon = toFixed 4 (minLon + real i * lonStep ni),
      val = toFixed 1 v\<rparr>"

text \<open>The body of the inner loop: what one visited cell does to \<open>points\<close>.\<close>

definition visit :: "nat \<Rightarrow> nat \<Rightarrow> real list \<Rightarrow> nat \<Rightarrow> nat \<Rightarrow> sample list \<Rightarrow> sample list" where
  "visit ni nj dat j i points =
     (let index = j * ni + i in
      if index < length dat then
        (let v = dat ! index in
         if v > 5 \<and> v < 80 then points @ [cell_point ni nj j i v] else points)
      else points)"

function column_loop ::
  "nat \<Rightarrow> nat \<Rightarrow> real list \<Rightarrow> nat \<Rightarrow> nat \<Rightarrow> sample list \<Rightarrow> sample list" where
  "column_loop ni nj dat j i points =
     (if i < ni then column_loop ni nj dat j (i + sampleRate) (visit ni nj dat j i points)
      else points)"
  by pat_completeness auto
termination
  by (relation "measure (\<lambda>(ni, nj, dat, j, i, points). ni - i)") (auto simp: sampleRate_def)

declare column_loop.simps [simp del]

function row_loop ::
  "nat \<Rightarrow> nat \<Rightarrow> real list \<Rightarrow> nat \<Rightarrow> sample list \<Rightarrow> sample list" where
  "row_loop ni nj dat j points =
     (if j < nj then row_loop ni nj dat (j + sampleRate) (column_loop ni nj dat j 0 points)
      else points)"
  by pat_completeness auto
termination
  by (relation "measure (\<lambda>(ni, nj, dat, j, points). nj - j)") (auto simp: sampleRate_def)

declare row_loop.simps [simp del]

definition project :: "message \<Rightarrow> sample list" where
  "project m =
     (let ni = or_default (header_ni m) 7000;
          nj = or_default (header_nj m) 3500
      in row_loop ni nj (msg_data m) 0 [])"

text \<open>
  \<open>emitted_from ni nj dat s j i\<close>: the sample \<open>s\<close> is the point pushed for the cell
  \<open>(j, i)\<close>, whose index is inside \<open>dat\<close> and whose value passed the filter.
\<close>

definition emitted_from :: "nat \<Rightarrow> nat \<Rightarrow> real list \<Rightarrow> sample \<Rightarrow> nat \<Rightarrow> nat \<Rightarrow> bool" where
  "emitted_from ni nj dat s j i \<longleftrightarrow>
     j * ni + i < length dat \<and> 5 < dat ! (j * ni + i) \<and> dat ! (j * ni + i) < 80 \<and>
     s = cell_point ni nj j i (dat ! (j * ni + i))"

section \<open>Errors and the outside world\<close>

text \<open>
  What the source throws or rejects with: \<open>NoFilesFound\<close> is
  \<open>new Error('No MRMS files found')\<close>, \<open>TransportError\<close> an \<open>'error'\<close> event of
  \<open>https.get\<close>, \<open>GunzipError\<close> the \<open>err\<close> of \<open>zlib.gunzip\<close>, \<open>DecoderError\<close> what
  \<open>grib2.parseBuffer\<close> throws, \<open>ParseFailed\<close> the
  \<open>Error('Failed to parse GRIB2 data: ...')\<close> of \<open>parseGRIB2Buffer\<close>, and \<open>TypeError\<close>
  indexing \<open>null\<close>.
\<close>

datatype error =
  NoFilesFound | TransportError | GunzipError | DecoderError | ParseFailed | TypeError

type_synonym buffer = "nat list"

section \<open>The Scanner: fetchLatestMRMSFile\<close>

definition PREFIX :: string where
  "PREFIX = ''MRMS_ReflectivityAtLowestAltitude_''"

definition is_digit :: "char \<Rightarrow> bool" where
  "is_digit c \<longleftrightarrow> CHR ''0'' \<le> c \<and> c \<le> CHR ''9''"

text \<open>
  The pieces of the two regular expressions, matched at the start of a string. Each
  gives the rest of the string after the piece, or \<open>None\<close> when the piece does not match.
\<close>

definition lit :: "string \<Rightarrow> string \<Rightarrow> string option" where
  "lit p s = (if take (length p) s = p then Some (drop (length p) s) else None)"

definition digits :: "nat \<Rightarrow> string \<Rightarrow> string option" where
  "digits n s =
     (if n \<le> length s \<and> list_all is_digit (take n s) then Some (drop n s) else None)"

text \<open>The optional group \<open>(\.gz)?\<close> is greedy: it takes the suffix when it is there.\<close>

definition opt_lit :: "string \<Rightarrow> string \<Rightarrow> string" where
  "opt_lit p s = (case lit p s of Some r \<Rightarrow> r | None \<Rightarrow> s)"

text \<open>
  \<open>/MRMS_ReflectivityAtLowestAltitude_\d{8}-\d{6}\.grib2(\.gz)?/\<close> at the start of
  \<open>s\<close>: the rest of \<open>s\<close> after the match.
\<close>

definition match_file :: "string \<Rightarrow> string option" where
  "match_file s =
     Option.bind (lit PREFIX s) (\<lambda>s1.
     Option.bind (digits 8 s1) (\<lambda>s2.
     Option.bind (lit ''-'' s2) (\<lambda>s3.
     Option.bind (digits 6 s3) (\<lambda>s4.
     Option.bind (lit ''.grib2'' s4) (\<lambda>s5.
     Some (opt_lit ''.gz'' s5))))))"

text \<open>
  The part of a matching name before the optional suffix, for the date \<open>d8\<close> and the
  time \<open>d6\<close>.
\<close>

definition stem :: "string \<Rightarrow> string \<Rightarrow> string" where
  "stem d8 d6 = PREFIX @ d8 @ ''-'' @ d6 @ ''.grib2''"

text \<open>\<open>/\d{8}-\d{6}/\<close> at the start of \<open>s\<close>.\<close>

definition match_stamp :: "string \<Rightarrow> string option" where
  "match_stamp s =
     Option.bind (digits 8 s) (\<lambda>s1.
     Option.bind (lit ''-'' s1) (\<lambda>s2.
     digits 6 s2))"

text \<open>A match takes at least the prefix, so the search after it is on a shorter string.\<close>

lemma lit_Some: "lit p s = Some r \<longleftrightarrow> s = p @ r"
  unfolding lit_def
  by (metis append_eq_conv_conj append_take_drop_id option.distinct(1) option.inject)

lemma lit_length: "lit p s = Some r \<Longrightarrow> length r + length p = length s"
  by (simp add: lit_Some)

lemma digits_length: "digits n s = Some r \<Longrightarrow> length r + n = length s"
  by (auto simp: digits_def split: if_splits)

lemma opt_lit_length: "length (opt_lit p s) \<le> length s"
  by (auto simp: opt_lit_def lit_def split: option.splits if_splits)

lemma match_file_shorter:
  assumes "match_file s = Some rest"
  shows "length rest < length s"
proof -
  from assms obtain s1 s2 s3 s4 s5 where
    "lit PREFIX s = Some s1" "digits 8 s1 = Some s2" "lit ''-'' s2 = Some s3"
    "digits 6 s3 = Some s4" "lit ''.grib2'' s4 = Some s5" "rest = opt_lit ''.gz'' s5"
    by (auto simp: match_file_def Option.bind_eq_Some_conv)
  then have "length s = length s5 + 55" "length rest \<le> length s5"
    using lit_length [of PREFIX s s1] digits_length [of 8 s1 s2] lit_length [of "''-''" s2 s3]
      digits_length [of 6 s3 s4] lit_length [of "''.grib2''" s4 s5] opt_lit_length [of "''.gz''" s5]
    by (simp_all add: PREFIX_def)
  then show ?thesis by simp
qed

text \<open>The text a match at the start of \<open>s\<close> covers, given the rest after it.\<close>

definition matched :: "string \<Rightarrow> string \<Rightarrow> string" where
  "matched s rest = take (length s - length rest) s"

text \<open>
  \<open>data.match(/.../g)\<close>: all matches from left to right, the search going on after
  the end of each match; \<open>|| []\<close> turns the \<open>null\<close> of no match into the empty array.
\<close>

function match_all :: "string \<Rightarrow> string list" where
  "match_all [] = []"
| "match_all (c # cs) =
     (case match_file (c # cs) of
        Some rest \<Rightarrow> matched (c # cs) rest # match_all rest
      | None \<Rightarrow> match_all cs)"
  by pat_completeness auto
termination
  by (relation "measure length") (auto dest: match_file_shorter)

text \<open>\<open>filename.match(/\d{8}-\d{6}/)\<close>: the leftmost match, or \<open>None\<close> for \<open>null\<close>.\<close>

fun match_first :: "string \<Rightarrow> string option" where
  "match_first [] = None"
| "match_first (c # cs) =
     (case match_stamp (c # cs) of
        Some rest \<Rightarrow> Some (matched (c # cs) rest)
      | None \<Rightarrow> match_first cs)"

definition endsWith :: "string \<Rightarrow> string \<Rightarrow> bool" where
  "endsWith s suf \<longleftrightarrow>
     length suf \<le> length s \<and> drop (length s - length suf) s = suf"

record file_ref =
  filename :: string
  isCompressed :: bool

text \<open>
  The argument is what the GET of the directory gives: the body, or the error of the
  \<open>'error'\<close> event. \<open>sort()\<close> with no comparator orders strings by code unit, which is
  the lexicographic order of \<open>char list\<close>.
\<close>

definition fetchLatestMRMSFile :: "error + string \<Rightarrow> error + file_ref" where
  "fetchLatestMRMSFile response =
     (case response of
        Inl e \<Rightarrow> Inl e
      | Inr data \<Rightarrow>
          (let allFiles = match_all data in
           if length allFiles = 0 then Inl NoFilesFound
           else
             (let latestFile = hd (rev (sort allFiles))
              in Inr \<lparr>filename = latestFile, isCompressed = endsWith latestFile ''.gz''\<rparr>)))"

section \<open>The Fetcher: downloadMRMSFile\<close>

definition downloadMRMSFile ::
  "(string \<Rightarrow> error + buffer) \<Rightarrow> (buffer \<Rightarrow> error + buffer) \<Rightarrow> string \<Rightarrow> bool \<Rightarrow> error + buffer" where
  "downloadMRMSFile http_get gunzip name compressed =
     (case http_get name of
        Inl e \<Rightarrow> Inl e
      | Inr buffer \<Rightarrow> if compressed then gunzip buffer else Inr buffer)"

section \<open>parseGRIB2Buffer\<close>

text \<open>
  \<open>parseBuffer\<close> is \<open>grib2.parseBuffer\<close> of the library \<open>grib2-simple\<close>. Whatever is
  thrown inside the \<open>try\<close> is caught and thrown again as \<open>ParseFailed\<close>. The function is
  \<open>async\<close>: a call gives a promise, which settles with the value computed here.
\<close>

definition parseGRIB2Buffer ::
  "(buffer \<Rightarrow> error + message list) \<Rightarrow> buffer \<Rightarrow> error + sample list" where
  "parseGRIB2Buffer parseBuffer buffer =
     (case parseBuffer buffer of
        Inl e \<Rightarrow> Inl ParseFailed
      | Inr messages \<Rightarrow>
          (case messages of
             [] \<Rightarrow> Inl ParseFailed
           | m # _ \<Rightarrow> Inr (project m)))"

section \<open>The Fallback Generator: generateFallbackData\<close>

record storm =
  storm_lat :: real
  storm_lon :: real
  intensity :: real
  radius :: real

definition stormCenters :: "storm list" where
  "stormCenters =
     [\<lparr>storm_lat = 35.5, storm_lon = - 97.5, intensity = 55, radius = 2.5\<rparr>,
      \<lparr>storm_lat = 30.2, storm_lon = - 81.6, intensity = 45, radius = 2.0\<rparr>,
      \<lparr>storm_lat = 41.8, storm_lon = - 87.6, intensity = 40, radius = 1.8\<rparr>,
      \<lparr>storm_lat = 33.7, storm_lon = - 84.4, intensity = 50, radius = 2.2\<rparr>,
      \<lparr>storm_lat = 29.7, storm_lon = - 95.3, intensity = 38, radius = 1.5\<rparr>]"

text \<open>
  The body of the loop over one storm, for the index \<open>i\<close> and the two values
  \<open>Math.random()\<close> returns in it: \<open>r1\<close> for the distance, \<open>r2\<close> for the noise.
\<close>

definition storm_point :: "storm \<Rightarrow> nat \<Rightarrow> real \<Rightarrow> real \<Rightarrow> sample" where
  "storm_point st i r1 r2 =
     (let angle = (pi * 2 * real i) / 80;
          distance = r1 * radius st;
          lat' = storm_lat st + distance * cos angle;
          lon' = storm_lon st + distance * sin angle;
          distanceFactor = 1 - distance / radius st;
          v = max 5 (min 75 (intensity st * distanceFactor + (r2 - 0.5) * 15))
      in \<lparr>lat = toFixed 4 lat', lon = toFixed 4 lon', val = toFixed 1 v\<rparr>)"

text \<open>A background point, for the three values \<open>Math.random()\<close> returns in it.\<close>

definition background_point :: "real \<Rightarrow> real \<Rightarrow> real \<Rightarrow> sample" where
  "background_point r1 r2 r3 =
     \<lparr>lat = toFixed 4 (25 + r1 * 25),
      lon = toFixed 4 (- 125 + r2 * 55),
      val = toFixed 1 (5 + r3 * 20)\<rparr>"

text \<open>
  The pseudo-random source is a sequence \<open>rnd\<close> of numbers: the \<open>k\<close>-th call of
  \<open>Math.random()\<close> returns \<open>rnd k\<close>. The loops carry \<open>points\<close> and the number of calls
  made so far. \<open>Math.random()\<close> returns a number in \<open>[0, 1)\<close>: that is \<open>unit_source\<close>.
\<close>

definition unit_source :: "(nat \<Rightarrow> real) \<Rightarrow> bool" where
  "unit_source rnd \<longleftrightarrow> (\<forall>k. 0 \<le> rnd k \<and> rnd k < 1)"

function storm_loop ::
  "(nat \<Rightarrow> real) \<Rightarrow> storm \<Rightarrow> nat \<Rightarrow> sample list \<times> nat \<Rightarrow> sample list \<times> nat" where
  "storm_loop rnd st i (points, k) =
     (if i < 80 then
        storm_loop rnd st (i + 1) (points @ [storm_point st i (rnd k) (rnd (k + 1))], k + 2)
      else (points, k))"
  by pat_completeness auto
termination
proof (relation "measure (\<lambda>(rnd, st, i, acc). 80 - i)")
  show "wf (measure (\<lambda>(rnd, st, i, acc). 80 - i))"
    by (rule wf_measure)
next
  fix rnd :: "nat \<Rightarrow> real" and st :: storm and i :: nat and points :: "sample list" and k :: nat
  assume "i < 80"
  then have "80 - (i + 1) < 80 - i"
    by linarith
  then show "((rnd, st, i + 1, points @ [storm_point st i (rnd k) (rnd (k + 1))], k + 2),
      rnd, st, i, points, k) \<in> measure (\<lambda>(rnd, st, i, acc). 80 - i)"
    by (simp only: in_measure prod.case)
qed

declare storm_loop.simps [simp del]

fun forEach_storm ::
  "(nat \<Rightarrow> real) \<Rightarrow> storm list \<Rightarrow> sample list \<times> nat \<Rightarrow> sample list \<times> nat" where
  "forEach_storm rnd [] acc = acc"
| "forEach_storm rnd (st # rest) acc = forEach_storm rnd rest (storm_loop rnd st 0 acc)"

function background_loop ::
  "(nat \<Rightarrow> real) \<Rightarrow> nat \<Rightarrow> sample list \<times> nat \<Rightarrow> sample list \<times> nat" where
  "background_loop rnd i (points, k) =
     (if i < 150 then
        background_loop rnd (i + 1)
          (points @ [background_point (rnd k) (rnd (k + 1)) (rnd (k + 2))], k + 3)
      else (points, k))"
  by pat_completeness auto
termination
proof (relation "measure (\<lambda>(rnd, i, acc). 150 - i)")
  show "wf (measure (\<lambda>(rnd, i, acc). 150 - i))"
    by (rule wf_measure)
next
  fix rnd :: "nat \<Rightarrow> real" and i :: nat and points :: "sample list" and k :: nat
  assume "i < 150"
  then have "150 - (i + 1) < 150 - i"
    by linarith
  then show "((rnd, i + 1,
      points @ [background_point (rnd k) (rnd (k + 1)) (rnd (k + 2))], k + 3),
      rnd, i, points, k) \<in> measure (\<lambda>(rnd, i, acc). 150 - i)"
    by (simp only: in_measure prod.case)
qed

declare background_loop.simps [simp del]

definition generateFallbackData :: "(nat \<Rightarrow> real) \<Rightarrow> sample list" where
  "generateFallbackData rnd =
     fst (background_loop rnd 0 (forEach_storm rnd stormCenters ([], 0)))"

text \<open>
  The points of one run of the loop over a storm, and of the background loop, when
  the run starts with \<open>k\<close> calls of \<open>Math.random()\<close> already made.
\<close>

definition storm_block :: "(nat \<Rightarrow> real) \<Rightarrow> storm \<Rightarrow> nat \<Rightarrow> sample list" where
  "storm_block rnd st k =
     map (\<lambda>m. storm_point st m (rnd (k + 2 * m)) (rnd (k + 2 * m + 1))) [0..<80]"

definition background_block :: "(nat \<Rightarrow> real) \<Rightarrow> nat \<Rightarrow> sample list" where
  "background_block rnd k =
     map (\<lambda>m. background_point (rnd (k + 3 * m)) (rnd (k + 3 * m + 1)) (rnd (k + 3 * m + 2)))
       [0..<150]"

section \<open>The cache and GET /api/radar/latest\<close>

text \<open>
  What the variable \<open>radarPoints\<close> holds: an array of points, or, where the handler
  keeps the result of the \<open>async\<close> function \<open>parseGRIB2Buffer\<close> without \<open>await\<close>, the
  promise, with the value or the error it settles with. \<open>radarPoints.length\<close> is the
  length of an array and \<open>undefined\<close> (\<open>None\<close>) on a promise.
\<close>

datatype radar_points = Points "sample list" | Promise "error + sample list"

fun points_length :: "radar_points \<Rightarrow> nat option" where
  "points_length (Points ps) = Some (length ps)"
| "points_length (Promise p) = None"

record snapshot =
  timestamp :: string
  data :: radar_points
  count :: "nat option"
  source :: string

record cache =
  cachedData :: "snapshot option"
  lastFetchTime :: int

definition CACHE_DURATION :: int where "CACHE_DURATION = 120000"

definition initial_cache :: cache where
  "initial_cache = \<lparr>cachedData = None, lastFetchTime = 0\<rparr>"

text \<open>
  All a request reads from outside the process: the outcome of the GET of the
  directory, of the GET of a file by its name, of \<open>zlib.gunzip\<close> and of
  \<open>grib2.parseBuffer\<close>, the values of \<open>Math.random()\<close>, and \<open>new Date().toISOString()\<close>.
\<close>

record world =
  listing :: "error + string"
  file_body :: "string \<Rightarrow> error + buffer"
  gunzip :: "buffer \<Rightarrow> error + buffer"
  parseBuffer :: "buffer \<Rightarrow> error + message list"
  random :: "nat \<Rightarrow> real"
  isoNow :: string

text \<open>The calls a request makes, in order.\<close>

datatype call =
  FetchLatestMRMSFile | DownloadMRMSFile string bool | ParseGRIB2Buffer | GenerateFallbackData

datatype response = Json snapshot | Status500 string

text \<open>
  \<open>isoString.replace(/[-:]/g, '').split('.')[0].replace('T', '-')\<close>: a string pattern in
  \<open>replace\<close> changes the first occurrence only.
\<close>

fun replace_first :: "char \<Rightarrow> char \<Rightarrow> string \<Rightarrow> string" where
  "replace_first a b [] = []"
| "replace_first a b (c # cs) = (if c = a then b # cs else c # replace_first a b cs)"

definition fallback_timestamp :: "string \<Rightarrow> string" where
  "fallback_timestamp isoString =
     replace_first (CHR ''T'') (CHR ''-'')
       (takeWhile (\<lambda>c. c \<noteq> CHR ''.'')
         (filter (\<lambda>c. c \<noteq> CHR ''-'' \<and> c \<noteq> CHR '':'') isoString))"

text \<open>
  The inner \<open>try\<close> block: its result is \<open>radarPoints\<close> and \<open>timestamp\<close>, or the error
  thrown in it, with the calls made. \<open>parseGRIB2Buffer(buffer)\<close> is called without
  \<open>await\<close>, so the block goes on with the promise whatever it settles with.
\<close>

definition try_live :: "world \<Rightarrow> (error + radar_points \<times> string) \<times> call list" where
  "try_live w =
     (case fetchLatestMRMSFile (listing w) of
        Inl e \<Rightarrow> (Inl e, [FetchLatestMRMSFile])
      | Inr ref \<Rightarrow>
          (case downloadMRMSFile (file_body w) (gunzip w) (filename ref) (isCompressed ref) of
             Inl e \<Rightarrow>
               (Inl e, [FetchLatestMRMSFile, DownloadMRMSFile (filename ref) (isCompressed ref)])
           | Inr buffer \<Rightarrow>
               (let radarPoints = Promise (parseGRIB2Buffer (parseBuffer w) buffer);
                    calls = [FetchLatestMRMSFile,
                             DownloadMRMSFile (filename ref) (isCompressed ref),
                             ParseGRIB2Buffer]
                in case match_first (filename ref) of
                     None \<Rightarrow> (Inl TypeError, calls)
                   | Some ts \<Rightarrow> (Inr (radarPoints, ts), calls))))"

text \<open>
  The handler: the response, the cache after it and the calls made. Nothing in the
  outer \<open>try\<close> throws outside the inner one, so the handler never answers with status 500.
\<close>

definition refresh :: "world \<Rightarrow> int \<Rightarrow> response \<times> cache \<times> call list" where
  "refresh w now =
     (let (radarPoints, ts, src, calls) =
            (case try_live w of
               (Inr (ps, ts), calls) \<Rightarrow> (ps, ts, ''MRMS RALA (Live)'', calls)
             | (Inl e, calls) \<Rightarrow>
                 (Points (generateFallbackData (random w)),
                  fallback_timestamp (isoNow w),
                  ''Generated (MRMS unavailable)'',
                  calls @ [GenerateFallbackData]));
          snap = \<lparr>timestamp = ts, data = radarPoints,
                  count = points_length radarPoints, source = src\<rparr>
      in (Json snap, \<lparr>cachedData = Some snap, lastFetchTime = now\<rparr>, calls))"

definition radar_latest :: "world \<Rightarrow> int \<Rightarrow> cache \<Rightarrow> response \<times> cache \<times> call list" where
  "radar_latest w now c =
     (case cachedData c of
        Some snap \<Rightarrow>
          if now - lastFetchTime c < CACHE_DURATION then (Json snap, c, [])
          else refresh w now
      | None \<Rightarrow> refresh w now)"

text \<open>
  A world for the concrete requests below: the listing holds one file name, the
  download gives an empty buffer, and the decoder gives \<open>decoded\<close>.
\<close>

definition example_world :: "error + message list \<Rightarrow> world" where
  "example_world decoded =
     \<lparr>listing = Inr ''MRMS_ReflectivityAtLowestAltitude_20240101-000000.grib2'',
      file_body = (\<lambda>name. Inr []),
      gunzip = (\<lambda>b. Inr b),
      parseBuffer = (\<lambda>b. decoded),
      random = (\<lambda>k. 1 / 2),
      isoNow = ''2024-01-01T00:00:00.000Z''\<rparr>"

section \<open>GET /api/health\<close>

record health =
  status :: string
  timestamp_iso :: string
  cached :: bool
  cacheAge :: "int option"

text \<open>\<open>isoString\<close> is \<open>new Date().toISOString()\<close> and \<open>now\<close> is \<open>Date.now()\<close>.\<close>

definition api_health :: "string \<Rightarrow> int \<Rightarrow> cache \<Rightarrow> health \<times> cache" where
  "api_health isoString now c =
     (\<lparr>status = ''ok'',
       timestamp_iso = isoString,
       cached = (cachedData c \<noteq> None),
       cacheAge =
         (case cachedData c of
            Some snap \<Rightarrow> Some \<lfloor>real_of_int (now - lastFetchTime c) / 1000\<rfloor>
          | None \<Rightarrow> None)\<rparr>,
      c)"

section \<open>Rounding keeps bounds that are multiples of the last decimal\<close>

lemma round_half_up_ge: "of_int k \<le> y \<Longrightarrow> k \<le> round_half_up y"
  unfolding round_half_up_def by linarith

lemma round_half_up_le: "y \<le> of_int k \<Longrightarrow> round_half_up y \<le> k"
  unfolding round_half_up_def by linarith

lemma toFixed_ge:
  assumes "of_int k / 10 ^ f \<le> x" and "\<bar>x\<bar> < 10 ^ 21"
  shows "of_int k / 10 ^ f \<le> toFixed f x"
proof (cases "x < 0")
  case True
  define r where "r = round_half_up (- x * 10 ^ f)"
  have "- x * 10 ^ f \<le> of_int (- k)"
    using assms(1) by (simp add: pos_divide_le_eq)
  then have "r \<le> - k"
    unfolding r_def by (rule round_half_up_le)
  then have "of_int k \<le> - (of_int r :: real)"
    by linarith
  then have "of_int k / 10 ^ f \<le> - (of_int r :: real) / 10 ^ f"
    by (rule divide_right_mono) simp
  moreover have "toFixed f x = - (of_int r :: real) / 10 ^ f"
    using True assms(2) by (simp add: toFixed_def r_def)
  ultimately show ?thesis by simp
next
  case False
  define r where "r = round_half_up (x * 10 ^ f)"
  have "of_int k \<le> x * 10 ^ f"
    using assms(1) by (simp add: pos_divide_le_eq)
  then have "k \<le> r"
    unfolding r_def by (rule round_half_up_ge)
  then have "(of_int k :: real) \<le> of_int r"
    by linarith
  then have "of_int k / 10 ^ f \<le> (of_int r :: real) / 10 ^ f"
    by (rule divide_right_mono) simp
  moreover have "toFixed f x = (of_int r :: real) / 10 ^ f"
    using False assms(2) by (simp add: toFixed_def r_def)
  ultimately show ?thesis by simp
qed

lemma toFixed_le:
  assumes "x \<le> of_int k / 10 ^ f" and "\<bar>x\<bar> < 10 ^ 21"
  shows "toFixed f x \<le> of_int k / 10 ^ f"
proof (cases "x < 0")
  case True
  define r where "r = round_half_up (- x * 10 ^ f)"
  have "of_int (- k) \<le> - x * 10 ^ f"
    using assms(1) by (simp add: pos_le_divide_eq)
  then have "- k \<le> r"
    unfolding r_def by (rule round_half_up_ge)
  then have "- (of_int r :: real) \<le> of_int k"
    by linarith
  then have "- (of_int r :: real) / 10 ^ f \<le> of_int k / 10 ^ f"
    by (rule divide_right_mono) simp
  moreover have "toFixed f x = - (of_int r :: real) / 10 ^ f"
    using True assms(2) by (simp add: toFixed_def r_def)
  ultimately show ?thesis by simp
next
  case False
  define r where "r = round_half_up (x * 10 ^ f)"
  have "x * 10 ^ f \<le> of_int k"
    using assms(1) by (simp add: pos_le_divide_eq)
  then have "r \<le> k"
    unfolding r_def by (rule round_half_up_le)
  then have "(of_int r :: real) \<le> of_int k"
    by linarith
  then have "(of_int r :: real) / 10 ^ f \<le> of_int k / 10 ^ f"
    by (rule divide_right_mono) simp
  moreover have "toFixed f x = (of_int r :: real) / 10 ^ f"
    using False assms(2) by (simp add: toFixed_def r_def)
  ultimately show ?thesis by simp
qed

lemma toFixed1_bounds:
  assumes "5 \<le> x" "x \<le> 80"
  shows "5 \<le> toFixed 1 x \<and> toFixed 1 x \<le> 80"
  using toFixed_ge [of 50 1 x] toFixed_le [of x 800 1] assms by simp

section \<open>The projector emits from cells inside the open range\<close>

lemma visit_mem:
  assumes "s \<in> set (visit ni nj dat j i points)"
  shows "s \<in> set points \<or> emitted_from ni nj dat s j i"
  using assms by (auto simp: visit_def emitted_from_def Let_def split: if_splits)

lemma column_loop_mem:
  "s \<in> set (column_loop ni nj dat j i points) \<Longrightarrow>
   s \<in> set points \<or>
   (\<exists>i'. i' < ni \<and> i' mod sampleRate = i mod sampleRate \<and> emitted_from ni nj dat s j i')"
proof (induction ni nj dat j i points rule: column_loop.induct)
  case (1 ni nj dat j i points)
  show ?case
  proof (cases "i < ni")
    case False
    with "1.prems" show ?thesis by (simp add: column_loop.simps)
  next
    case True
    with "1.prems" have "s \<in> set (column_loop ni nj dat j (i + sampleRate) (visit ni nj dat j i points))"
      by (simp add: column_loop.simps)
    from "1.IH" [OF True this] show ?thesis
    proof
      assume "s \<in> set (visit ni nj dat j i points)"
      from visit_mem [OF this] True show ?thesis by blast
    next
      assume "\<exists>i'. i' < ni \<and> i' mod sampleRate = (i + sampleRate) mod sampleRate \<and>
        emitted_from ni nj dat s j i'"
      then show ?thesis by simp
    qed
  qed
qed

lemma row_loop_mem:
  "s \<in> set (row_loop ni nj dat j points) \<Longrightarrow>
   s \<in> set points \<or>
   (\<exists>j' i'. j' < nj \<and> j' mod sampleRate = j mod sampleRate \<and>
      i' < ni \<and> sampleRate dvd i' \<and> emitted_from ni nj dat s j' i')"
proof (induction ni nj dat j points rule: row_loop.induct)
  case (1 ni nj dat j points)
  show ?case
  proof (cases "j < nj")
    case False
    with "1.prems" show ?thesis by (simp add: row_loop.simps)
  next
    case True
    with "1.prems" have "s \<in> set (row_loop ni nj dat (j + sampleRate) (column_loop ni nj dat j 0 points))"
      by (simp add: row_loop.simps)
    from "1.IH" [OF True this] show ?thesis
    proof
      assume "s \<in> set (column_loop ni nj dat j 0 points)"
      from column_loop_mem [OF this] show ?thesis
      proof (elim disjE exE conjE)
        assume "s \<in> set points"
        then show ?thesis by (rule disjI1)
      next
        fix i'
        assume a: "i' < ni" "i' mod sampleRate = 0 mod sampleRate" "emitted_from ni nj dat s j i'"
        from a(2) have "sampleRate dvd i'"
          by (simp add: mod_eq_0_iff_dvd)
        with True a(1,3) have "j < nj \<and> j mod sampleRate = j mod sampleRate \<and>
          i' < ni \<and> sampleRate dvd i' \<and> emitted_from ni nj dat s j i'"
          by simp
        then show ?thesis by blast
      qed
    next
      assume "\<exists>j' i'. j' < nj \<and> j' mod sampleRate = (j + sampleRate) mod sampleRate \<and>
        i' < ni \<and> sampleRate dvd i' \<and> emitted_from ni nj dat s j' i'"
      then show ?thesis by simp
    qed
  qed
qed

lemma project_mem:
  assumes "s \<in> set (project m)"
  shows "\<exists>j i. j < or_default (header_nj m) 3500 \<and> i < or_default (header_ni m) 7000 \<and>
    sampleRate dvd j \<and> sampleRate dvd i \<and>
    emitted_from (or_default (header_ni m) 7000) (or_default (header_nj m) 3500) (msg_data m) s j i"
proof -
  from assms have "s \<in> set (row_loop (or_default (header_ni m) 7000)
      (or_default (header_nj m) 3500) (msg_data m) 0 [])"
    by (simp add: project_def)
  from row_loop_mem [OF this] show ?thesis
    by (auto simp: mod_eq_0_iff_dvd)
qed

text \<open>
  C4, as amended. Every sample of the live projector is the point of a visited cell
  (row and column multiples of 25, inside the grid, index inside the data) whose
  value \<open>v\<close> is strictly between 5 and 80: cells at or outside the bounds are dropped.
  The value of the sample is \<open>v\<close> rounded to one decimal, so it lies between 5 and 80,
  both bounds included.
\<close>

theorem live_sample_from_open_range:
  assumes "s \<in> set (project m)"
  shows "\<exists>j i. j < or_default (header_nj m) 3500 \<and> i < or_default (header_ni m) 7000 \<and>
      sampleRate dvd j \<and> sampleRate dvd i \<and>
      j * or_default (header_ni m) 7000 + i < length (msg_data m) \<and>
      5 < msg_data m ! (j * or_default (header_ni m) 7000 + i) \<and>
      msg_data m ! (j * or_default (header_ni m) 7000 + i) < 80 \<and>
      val s = toFixed 1 (msg_data m ! (j * or_default (header_ni m) 7000 + i)) \<and>
      5 \<le> val s \<and> val s \<le> 80"
proof -
  from project_mem [OF assms] obtain j i where
    ji: "j < or_default (header_nj m) 3500" "i < or_default (header_ni m) 7000"
      "sampleRate dvd j" "sampleRate dvd i"
    and em: "emitted_from (or_default (header_ni m) 7000) (or_default (header_nj m) 3500)
      (msg_data m) s j i"
    by blast
  define v where "v = msg_data m ! (j * or_default (header_ni m) 7000 + i)"
  from em have ix: "j * or_default (header_ni m) 7000 + i < length (msg_data m)"
    and v: "5 < v" "v < 80"
    and s: "val s = toFixed 1 v"
    by (simp_all add: emitted_from_def cell_point_def v_def)
  from v have "5 \<le> toFixed 1 v \<and> toFixed 1 v \<le> 80"
    by (intro toFixed1_bounds) simp_all
  with ji ix v s show ?thesis
    unfolding v_def by (intro exI [of _ j] exI [of _ i]) simp
qed

theorem live_sample_from_open_range_witness:
  "\<lparr>lat = 20, lon = - 130, val = 5\<rparr>
     \<in> set (project \<lparr>header_ni = Some 1, header_nj = Some 1, msg_data = [161 / 32]\<rparr>) \<and>
   (\<exists>j i. j < or_default (header_nj \<lparr>header_ni = Some 1, header_nj = Some 1, msg_data = [161 / 32]\<rparr>) 3500 \<and>
      i < or_default (header_ni \<lparr>header_ni = Some 1, header_nj = Some 1, msg_data = [161 / 32]\<rparr>) 7000 \<and>
      sampleRate dvd j \<and> sampleRate dvd i \<and>
      j * or_default (header_ni \<lparr>header_ni = Some 1, header_nj = Some 1, msg_data = [161 / 32]\<rparr>) 7000 + i
        < length (msg_data \<lparr>header_ni = Some 1, header_nj = Some 1, msg_data = [161 / 32]\<rparr>) \<and>
      5 < msg_data \<lparr>header_ni = Some 1, header_nj = Some 1, msg_data = [161 / 32]\<rparr> !
        (j * or_default (header_ni \<lparr>header_ni = Some 1, header_nj = Some 1, msg_data = [161 / 32]\<rparr>) 7000 + i) \<and>
      msg_data \<lparr>header_ni = Some 1, header_nj = Some 1, msg_data = [161 / 32]\<rparr> !
        (j * or_default (header_ni \<lparr>header_ni = Some 1, header_nj = Some 1, msg_data = [161 / 32]\<rparr>) 7000 + i) < 80 \<and>
      val \<lparr>lat = 20, lon = - 130, val = 5\<rparr> =
        toFixed 1 (msg_data \<lparr>header_ni = Some 1, header_nj = Some 1, msg_data = [161 / 32]\<rparr> !
          (j * or_default (header_ni \<lparr>header_ni = Some 1, header_nj = Some 1, msg_data = [161 / 32]\<rparr>) 7000 + i)) \<and>
      5 \<le> val \<lparr>lat = 20, lon = - 130, val = 5\<rparr> \<and> val \<lparr>lat = 20, lon = - 130, val = 5\<rparr> \<le> 80)"
proof -
  have h: "\<lparr>lat = 20, lon = - 130, val = 5\<rparr>
     \<in> set (project \<lparr>header_ni = Some 1, header_nj = Some 1, msg_data = [161 / 32]\<rparr>)"
    by (simp add: project_def or_default_def row_loop.simps column_loop.simps visit_def
        cell_point_def toFixed_def round_half_up_def minLat_def minLon_def sampleRate_def)
  from h live_sample_from_open_range [OF h] show ?thesis
    by (rule conjI)
qed

text \<open>
  C4 as stated fails: a cell of value \<open>161 / 32 = 5.03125\<close> passes the filter and is
  emitted with the value \<open>5\<close>, and one of value \<open>2559 / 32 = 79.96875\<close> with the value
  \<open>80\<close>.
\<close>

theorem live_sample_value_on_bound:
  "project \<lparr>header_ni = Some 1, header_nj = Some 1, msg_data = [161 / 32]\<rparr>
     = [\<lparr>lat = 20, lon = - 130, val = 5\<rparr>] \<and>
   project \<lparr>header_ni = Some 1, header_nj = Some 1, msg_data = [2559 / 32]\<rparr>
     = [\<lparr>lat = 20, lon = - 130, val = 80\<rparr>]"
  by (simp add: project_def or_default_def row_loop.simps column_loop.simps visit_def
      cell_point_def toFixed_def round_half_up_def minLat_def minLon_def sampleRate_def)

section \<open>The Scanner finds the greatest matching name\<close>

lemma digits_Some:
  "digits n s = Some r \<longleftrightarrow> (\<exists>d. s = d @ r \<and> length d = n \<and> list_all is_digit d)"
proof
  assume "digits n s = Some r"
  then have "n \<le> length s" "list_all is_digit (take n s)" "r = drop n s"
    by (auto simp: digits_def split: if_splits)
  then have "s = take n s @ r \<and> length (take n s) = n \<and> list_all is_digit (take n s)"
    by simp
  then show "\<exists>d. s = d @ r \<and> length d = n \<and> list_all is_digit d" ..
next
  assume "\<exists>d. s = d @ r \<and> length d = n \<and> list_all is_digit d"
  then show "digits n s = Some r"
    by (auto simp: digits_def)
qed

lemma opt_lit_gz: "opt_lit ''.gz'' t = (if take 3 t = ''.gz'' then drop 3 t else t)"
  by (simp add: opt_lit_def lit_def numeral_3_eq_3)

lemma digits_append: "length d = n \<Longrightarrow> list_all is_digit d \<Longrightarrow> digits n (d @ r) = Some r"
  by (simp add: digits_def)

lemma lit_append: "lit p (p @ r) = Some r"
  by (simp add: lit_Some)

lemma match_file_stem:
  assumes "length d8 = 8" "list_all is_digit d8" "length d6 = 6" "list_all is_digit d6"
  shows "match_file (stem d8 d6 @ t) = Some (opt_lit ''.gz'' t)"
proof -
  have "lit PREFIX (stem d8 d6 @ t) = Some (d8 @ ''-'' @ d6 @ ''.grib2'' @ t)"
    unfolding stem_def by (simp only: append_assoc lit_append)
  moreover have "digits 8 (d8 @ ''-'' @ d6 @ ''.grib2'' @ t) = Some (''-'' @ d6 @ ''.grib2'' @ t)"
    using assms(1,2) by (rule digits_append)
  moreover have "lit ''-'' (''-'' @ d6 @ ''.grib2'' @ t) = Some (d6 @ ''.grib2'' @ t)"
    by (rule lit_append)
  moreover have "digits 6 (d6 @ ''.grib2'' @ t) = Some (''.grib2'' @ t)"
    using assms(3,4) by (rule digits_append)
  moreover have "lit ''.grib2'' (''.grib2'' @ t) = Some t"
    by (rule lit_append)
  ultimately show ?thesis
    by (simp add: match_file_def)
qed

lemma match_file_Some:
  "match_file s = Some rest \<longleftrightarrow>
     (\<exists>d8 d6 t. s = stem d8 d6 @ t \<and> length d8 = 8 \<and> list_all is_digit d8 \<and>
        length d6 = 6 \<and> list_all is_digit d6 \<and> rest = opt_lit ''.gz'' t)"
proof
  assume "match_file s = Some rest"
  then show "\<exists>d8 d6 t. s = stem d8 d6 @ t \<and> length d8 = 8 \<and> list_all is_digit d8 \<and>
        length d6 = 6 \<and> list_all is_digit d6 \<and> rest = opt_lit ''.gz'' t"
    unfolding match_file_def stem_def
    by (auto simp: Option.bind_eq_Some_conv lit_Some digits_Some)
next
  assume "\<exists>d8 d6 t. s = stem d8 d6 @ t \<and> length d8 = 8 \<and> list_all is_digit d8 \<and>
        length d6 = 6 \<and> list_all is_digit d6 \<and> rest = opt_lit ''.gz'' t"
  then show "match_file s = Some rest"
    by (auto simp: match_file_stem)
qed

text \<open>A name that matches as a whole is a stem, with or without the suffix.\<close>

lemma match_file_whole:
  "match_file f = Some [] \<longleftrightarrow>
     (\<exists>d8 d6. length d8 = 8 \<and> list_all is_digit d8 \<and> length d6 = 6 \<and> list_all is_digit d6 \<and>
        (f = stem d8 d6 \<or> f = stem d8 d6 @ ''.gz''))"
proof
  assume "match_file f = Some []"
  then obtain d8 d6 t where f: "f = stem d8 d6 @ t" and d: "length d8 = 8" "list_all is_digit d8"
    "length d6 = 6" "list_all is_digit d6" and t: "[] = opt_lit ''.gz'' t"
    unfolding match_file_Some by blast
  from t have "t = [] \<or> t = ''.gz''"
    by (auto simp: opt_lit_gz split: if_splits)
  with f d show "\<exists>d8 d6. length d8 = 8 \<and> list_all is_digit d8 \<and> length d6 = 6 \<and> list_all is_digit d6 \<and>
        (f = stem d8 d6 \<or> f = stem d8 d6 @ ''.gz'')"
    by auto
next
  assume "\<exists>d8 d6. length d8 = 8 \<and> list_all is_digit d8 \<and> length d6 = 6 \<and> list_all is_digit d6 \<and>
        (f = stem d8 d6 \<or> f = stem d8 d6 @ ''.gz'')"
  then obtain d8 d6 where d: "length d8 = 8" "list_all is_digit d8"
    "length d6 = 6" "list_all is_digit d6" and f: "f = stem d8 d6 \<or> f = stem d8 d6 @ ''.gz''"
    by blast
  from f show "match_file f = Some []"
  proof
    assume "f = stem d8 d6"
    then have "f = stem d8 d6 @ []" by simp
    then show ?thesis using match_file_stem [OF d, of "[]"] by (simp add: opt_lit_gz)
  next
    assume "f = stem d8 d6 @ ''.gz''"
    then show ?thesis using match_file_stem [OF d, of "''.gz''"] by (simp add: opt_lit_gz)
  qed
qed

text \<open>What a match covers, and that it matches as a whole.\<close>

lemma matched_append: "matched (m @ rest) rest = m"
  by (simp add: matched_def)

lemma opt_lit_gz_cases:
  obtains "t = ''.gz'' @ opt_lit ''.gz'' t" | "t = opt_lit ''.gz'' t" "take 3 t \<noteq> ''.gz''"
proof (cases "take 3 t = ''.gz''")
  case True
  have "t = take 3 t @ drop 3 t"
    by simp
  also have "take 3 t = ''.gz''"
    by (rule True)
  also have "drop 3 t = opt_lit ''.gz'' t"
    unfolding opt_lit_gz using True by simp
  finally have "t = ''.gz'' @ opt_lit ''.gz'' t" .
  then show ?thesis by (rule that(1))
next
  case False
  then have "t = opt_lit ''.gz'' t"
    by (simp only: opt_lit_gz if_False)
  then show ?thesis using False by (rule that(2))
qed

lemma matched_split:
  assumes "match_file s = Some rest"
  shows "s = matched s rest @ rest" and "match_file (matched s rest) = Some []"
proof -
  from assms obtain d8 d6 t where s: "s = stem d8 d6 @ t" and d: "length d8 = 8" "list_all is_digit d8"
    "length d6 = 6" "list_all is_digit d6" and r: "rest = opt_lit ''.gz'' t"
    unfolding match_file_Some by blast
  have "\<exists>g. s = (stem d8 d6 @ g) @ rest \<and> (g = [] \<or> g = ''.gz'')"
  proof (cases t rule: opt_lit_gz_cases)
    case 1
    then have "s = (stem d8 d6 @ ''.gz'') @ rest"
      unfolding s r by simp
    then show ?thesis by blast
  next
    case 2
    then have "s = (stem d8 d6 @ []) @ rest"
      unfolding s r by simp
    then show ?thesis by blast
  qed
  then obtain g where sg: "s = (stem d8 d6 @ g) @ rest" and g: "g = [] \<or> g = ''.gz''"
    by blast
  have m: "matched s rest = stem d8 d6 @ g"
    by (subst sg) (rule matched_append)
  show "s = matched s rest @ rest"
    unfolding m by (rule sg)
  from g d have "match_file (stem d8 d6 @ g) = Some []"
    unfolding match_file_whole by auto
  then show "match_file (matched s rest) = Some []"
    unfolding m .
qed

lemma match_all_mem:
  "m \<in> set (match_all s) \<Longrightarrow> match_file m = Some [] \<and> (\<exists>pre post. s = pre @ m @ post)"
proof (induction s rule: match_all.induct)
  case 1
  then show ?case by simp
next
  case (2 c cs)
  show ?case
  proof (cases "match_file (c # cs)")
    case None
    with 2 have "match_file m = Some [] \<and> (\<exists>pre post. cs = pre @ m @ post)"
      by simp
    then obtain pre post where "match_file m = Some []" "cs = pre @ m @ post" by blast
    then have "match_file m = Some [] \<and> c # cs = (c # pre) @ m @ post" by simp
    then show ?thesis by blast
  next
    case (Some rest)
    with "2.prems" have "m = matched (c # cs) rest \<or> m \<in> set (match_all rest)"
      by simp
    then show ?thesis
    proof
      assume m: "m = matched (c # cs) rest"
      from matched_split [OF Some] have "c # cs = [] @ m @ rest" "match_file m = Some []"
        unfolding m by simp_all
      then show ?thesis by blast
    next
      assume "m \<in> set (match_all rest)"
      from "2.IH"(2) [OF Some this] obtain pre post where
        "match_file m = Some []" "rest = pre @ m @ post" by blast
      with matched_split(1) [OF Some]
      have "match_file m = Some [] \<and> c # cs = (matched (c # cs) rest @ pre) @ m @ post"
        by simp
      then show ?thesis by blast
    qed
  qed
qed

lemma length_PREFIX: "length PREFIX = 34"
  by (simp add: PREFIX_def)

lemma length_stem: "length d8 = 8 \<Longrightarrow> length d6 = 6 \<Longrightarrow> length (stem d8 d6) = 55"
  by (simp add: stem_def length_PREFIX)

lemma M_in_PREFIX:
  assumes "p < 34" "PREFIX ! p = CHR ''M''"
  shows "p = 0 \<or> p = 2"
proof -
  have "filter (\<lambda>(i, c). c = CHR ''M'') (enumerate 0 PREFIX) = [(0, CHR ''M''), (2, CHR ''M'')]"
    by (simp add: PREFIX_def)
  moreover have "(p, PREFIX ! p) \<in> set (enumerate 0 PREFIX)"
    using assms(1) by (simp add: in_set_enumerate_eq length_PREFIX)
  then have "(p, CHR ''M'') \<in> set (filter (\<lambda>(i, c). c = CHR ''M'') (enumerate 0 PREFIX))"
    using assms(2) by simp
  ultimately show ?thesis by simp
qed

lemma not_digit_M: "\<not> is_digit (CHR ''M'')"
  by (simp add: is_digit_def)

lemma prefix_le: "(xs :: string) \<le> xs @ ys"
  by (induction xs) simp_all

lemma whole_starts:
  assumes "match_file f = Some []"
  shows "\<exists>u. f = PREFIX @ u \<and> u \<noteq> []"
proof -
  from assms obtain d8 d6 where "length d8 = 8" "f = stem d8 d6 \<or> f = stem d8 d6 @ ''.gz''"
    unfolding match_file_whole by blast
  then have "f = PREFIX @ (d8 @ ''-'' @ d6 @ ''.grib2'') \<or> f = PREFIX @ (d8 @ ''-'' @ d6 @ ''.grib2'' @ ''.gz'')"
    by (simp add: stem_def)
  then show ?thesis by blast
qed

lemma whole_extends:
  assumes "match_file f = Some []"
  shows "match_file (f @ post) \<noteq> None"
proof -
  from assms obtain d8 d6 where d: "length d8 = 8" "list_all is_digit d8"
    "length d6 = 6" "list_all is_digit d6" and f: "f = stem d8 d6 \<or> f = stem d8 d6 @ ''.gz''"
    unfolding match_file_whole by blast
  from f have "f @ post = stem d8 d6 @ post \<or> f @ post = stem d8 d6 @ (''.gz'' @ post)"
    by auto
  then show ?thesis
    using match_file_stem [OF d] by auto
qed

text \<open>The characters of a match after the prefix.\<close>

lemma body_chars:
  assumes "list_all is_digit d8" "list_all is_digit d6" "g = [] \<or> g = ''.gz''"
    and "c \<in> set (d8 @ ''-'' @ d6 @ ''.grib2'' @ g)"
  shows "c \<noteq> CHR ''M''"
proof -
  from assms(4) have "c \<in> set d8 \<or> c \<in> set d6 \<or> c \<in> set ''-.grib2'' \<or> c \<in> set g"
    by auto
  moreover have "c \<in> set d8 \<Longrightarrow> is_digit c"
    using assms(1) by (simp add: list_all_iff)
  moreover have "c \<in> set d6 \<Longrightarrow> is_digit c"
    using assms(2) by (simp add: list_all_iff)
  moreover have "c \<in> set g \<Longrightarrow> c \<in> set ''.gz''"
    using assms(3) by auto
  ultimately show ?thesis
    using not_digit_M by auto
qed

text \<open>No match starts strictly inside another match.\<close>

lemma no_overlap:
  assumes s: "match_file s = Some rest" and occ: "s = pre @ f @ post" and f: "match_file f = Some []"
  shows "pre = [] \<or> length (matched s rest) \<le> length pre"
proof (rule ccontr)
  assume "\<not> (pre = [] \<or> length (matched s rest) \<le> length pre)"
  then have p0: "0 < length pre" and pm: "length pre < length (matched s rest)"
    by simp_all
  define p where "p = length pre"
  from whole_starts [OF f] obtain u where u: "f = PREFIX @ u" "u \<noteq> []"
    by blast
  have fp: "length f \<ge> 2"
    using u by (simp add: length_PREFIX)
  have sp: "s ! p = CHR ''M''"
    unfolding occ p_def u by (simp add: nth_append PREFIX_def)
  have sp1: "s ! (p + 1) = CHR ''R''"
    unfolding occ p_def u by (simp add: nth_append PREFIX_def)
  from s obtain d8 d6 t where st: "s = stem d8 d6 @ t" and d: "length d8 = 8" "list_all is_digit d8"
    "length d6 = 6" "list_all is_digit d6" and r: "rest = opt_lit ''.gz'' t"
    unfolding match_file_Some by blast
  have "\<exists>g. s = (stem d8 d6 @ g) @ rest \<and> (g = [] \<or> g = ''.gz'')"
  proof (cases t rule: opt_lit_gz_cases)
    case 1
    then have "s = (stem d8 d6 @ ''.gz'') @ rest"
      unfolding st r by simp
    then show ?thesis by blast
  next
    case 2
    then have "s = (stem d8 d6 @ []) @ rest"
      unfolding st r by simp
    then show ?thesis by blast
  qed
  then obtain g where sg: "s = (stem d8 d6 @ g) @ rest" and g: "g = [] \<or> g = ''.gz''"
    by blast
  have m: "matched s rest = stem d8 d6 @ g"
    by (subst sg) (rule matched_append)
  define body where "body = d8 @ ''-'' @ d6 @ ''.grib2'' @ g"
  have mb: "stem d8 d6 @ g = PREFIX @ body"
    by (simp add: stem_def body_def)
  have sb: "s = PREFIX @ body @ rest"
    using sg mb by simp
  from pm have pl: "p < 34 + length body"
    unfolding m mb p_def by (simp add: length_PREFIX)
  show False
  proof (cases "p < 34")
    case True
    then have "PREFIX ! p = CHR ''M''"
      using sp unfolding sb by (simp add: nth_append length_PREFIX)
    from M_in_PREFIX [OF True this] p0 have p2: "p = 2"
      by (simp add: p_def)
    have "s ! (p + 1) = CHR ''S''"
      unfolding sb p2 by (simp add: nth_append PREFIX_def)
    with sp1 show False by simp
  next
    case False
    from False pl have q: "p - 34 < length body"
      by linarith
    from False q have "s ! p = body ! (p - 34)"
      unfolding sb by (simp add: nth_append length_PREFIX)
    moreover have "body ! (p - 34) \<in> set body"
      using q by (rule nth_mem)
    ultimately have "s ! p \<in> set (d8 @ ''-'' @ d6 @ ''.grib2'' @ g)"
      by (simp add: body_def)
    from body_chars [OF d(2) d(4) g this] sp show False by simp
  qed
qed

lemma whole_le_greedy:
  assumes f: "match_file f = Some []" and s: "match_file (f @ post) = Some rest"
  shows "f \<le> matched (f @ post) rest"
proof -
  from f obtain d8 d6 where d: "length d8 = 8" "list_all is_digit d8"
    "length d6 = 6" "list_all is_digit d6" and c: "f = stem d8 d6 \<or> f = stem d8 d6 @ ''.gz''"
    unfolding match_file_whole by blast
  from c show ?thesis
  proof
    assume fs: "f = stem d8 d6"
    from s have r: "rest = opt_lit ''.gz'' post"
      unfolding fs match_file_stem [OF d] by simp
    show ?thesis
    proof (cases post rule: opt_lit_gz_cases)
      case 1
      then have "f @ post = (f @ ''.gz'') @ rest"
        unfolding r by simp
      then have "matched (f @ post) rest = f @ ''.gz''"
        by (simp only: matched_append)
      then show ?thesis
        by (simp only: prefix_le)
    next
      case 2
      then have "matched (f @ post) rest = f"
        unfolding r [symmetric] by (simp only: matched_append)
      then show ?thesis by simp
    qed
  next
    assume fs: "f = stem d8 d6 @ ''.gz''"
    then have "f @ post = stem d8 d6 @ (''.gz'' @ post)"
      by simp
    with s have "rest = opt_lit ''.gz'' (''.gz'' @ post)"
      using match_file_stem [OF d, of "''.gz'' @ post"] by simp
    then have "rest = post"
      by (simp add: opt_lit_gz)
    then have "matched (f @ post) rest = f"
      by (simp only: matched_append)
    then show ?thesis by simp
  qed
qed

lemma match_all_dominates:
  "s = pre @ f @ post \<Longrightarrow> match_file f = Some [] \<Longrightarrow> \<exists>m \<in> set (match_all s). f \<le> m"
proof (induction s arbitrary: pre rule: match_all.induct)
  case 1
  from whole_starts [OF "1.prems"(2)] "1.prems"(1) show ?case
    by auto
next
  case (2 c cs)
  note occ = "2.prems"(1) and f = "2.prems"(2)
  show ?case
  proof (cases "match_file (c # cs)")
    case None
    have "pre \<noteq> []"
    proof
      assume "pre = []"
      with occ have "c # cs = f @ post" by simp
      with None whole_extends [OF f, of post] show False by simp
    qed
    then obtain pre' where "pre = c # pre'" "cs = pre' @ f @ post"
      using occ by (cases pre) auto
    from "2.IH"(1) [OF None this(2) f] show ?thesis
      using None by simp
  next
    case (Some rest)
    define m0 where "m0 = matched (c # cs) rest"
    have split: "c # cs = m0 @ rest"
      unfolding m0_def by (rule matched_split(1) [OF Some])
    have all: "match_all (c # cs) = m0 # match_all rest"
      using Some by (simp add: m0_def)
    from no_overlap [OF Some occ f] show ?thesis
    proof
      assume "pre = []"
      with occ have "c # cs = f @ post" by simp
      with Some have "f \<le> m0"
        unfolding m0_def using whole_le_greedy [OF f, of post rest] by simp
      then show ?thesis
        unfolding all by simp
    next
      assume "length (matched (c # cs) rest) \<le> length pre"
      then have le: "length m0 \<le> length pre"
        by (simp add: m0_def)
      from occ split have "m0 @ rest = pre @ f @ post"
        by simp
      with le obtain pre' where "pre = m0 @ pre'" "rest = pre' @ f @ post"
        by (auto simp: append_eq_append_conv2)
      from "2.IH"(2) [OF Some this(2) f] show ?thesis
        unfolding all by auto
    qed
  qed
qed

lemma sorted_last_Max:
  fixes ys :: "'a::linorder list"
  assumes "sorted ys" "ys \<noteq> []"
  shows "last ys = Max (set ys)"
proof -
  have ys: "ys = butlast ys @ [last ys]"
    using assms(2) by simp
  from assms(1) have "sorted (butlast ys @ [last ys])"
    by (simp only: ys [symmetric])
  then have "\<forall>y \<in> set (butlast ys). y \<le> last ys"
    by (simp add: sorted_append)
  moreover have "set ys = insert (last ys) (set (butlast ys))"
    by (subst ys) simp
  ultimately have "\<forall>y \<in> set ys. y \<le> last ys"
    by simp
  then have "Max (set ys) = last ys"
    using assms(2) by (intro Max_eqI) simp_all
  then show ?thesis by simp
qed

lemma last_sort_Max:
  fixes xs :: "'a::linorder list"
  assumes "xs \<noteq> []"
  shows "hd (rev (sort xs)) = Max (set xs)"
proof -
  have ne: "sort xs \<noteq> []"
    using assms by (metis length_sort length_0_conv)
  have "hd (rev (sort xs)) = last (sort xs)"
    using ne by (simp add: hd_rev)
  also have "\<dots> = Max (set (sort xs))"
    using ne by (intro sorted_last_Max) simp_all
  finally show ?thesis by simp
qed

text \<open>
  C5. When the listing \<open>page\<close> contains a name \<open>f\<close> that matches the pattern as a whole
  (\<open>match_file f = Some []\<close>), the Scanner succeeds. The name it selects is the first of
  the matches sorted in descending order, which is their maximum in the lexicographic
  order; it is itself a matching name of the listing, it is at least \<open>f\<close>, so it is the
  greatest matching name of the listing, and \<open>isCompressed\<close> is true exactly when it
  ends in \<open>.gz\<close>.
\<close>

theorem scanner_selects_greatest:
  assumes "page = pre @ f @ post" and "match_file f = Some []"
  shows "\<exists>name. fetchLatestMRMSFile (Inr page)
             = Inr \<lparr>filename = name, isCompressed = endsWith name ''.gz''\<rparr> \<and>
           name = hd (rev (sort (match_all page))) \<and>
           name = Max (set (match_all page)) \<and>
           match_file name = Some [] \<and>
           (\<exists>pre' post'. page = pre' @ name @ post') \<and>
           f \<le> name"
proof -
  from match_all_dominates [OF assms] obtain m where m: "m \<in> set (match_all page)" "f \<le> m"
    by blast
  then have ne: "match_all page \<noteq> []"
    by auto
  define name where "name = hd (rev (sort (match_all page)))"
  have mx: "name = Max (set (match_all page))"
    unfolding name_def using ne by (rule last_sort_Max)
  then have mem: "name \<in> set (match_all page)"
    using ne by (metis List.finite_set Max_in set_empty)
  have "m \<le> name"
    unfolding mx using m(1) by simp
  with m(2) have "f \<le> name"
    by simp
  moreover have "fetchLatestMRMSFile (Inr page)
      = Inr \<lparr>filename = name, isCompressed = endsWith name ''.gz''\<rparr>"
    using ne by (simp add: fetchLatestMRMSFile_def Let_def name_def)
  moreover note match_all_mem [OF mem] mx name_def
  ultimately show ?thesis by blast
qed

theorem scanner_selects_greatest_witness:
  "''MRMS_ReflectivityAtLowestAltitude_20240101-000000.grib2 MRMS_ReflectivityAtLowestAltitude_20240101-000200.grib2.gz''
     = [] @ ''MRMS_ReflectivityAtLowestAltitude_20240101-000000.grib2''
          @ '' MRMS_ReflectivityAtLowestAltitude_20240101-000200.grib2.gz'' \<and>
   match_file ''MRMS_ReflectivityAtLowestAltitude_20240101-000000.grib2'' = Some [] \<and>
   (\<exists>name. fetchLatestMRMSFile (Inr ''MRMS_ReflectivityAtLowestAltitude_20240101-000000.grib2 MRMS_ReflectivityAtLowestAltitude_20240101-000200.grib2.gz'')
             = Inr \<lparr>filename = name, isCompressed = endsWith name ''.gz''\<rparr> \<and>
           name = hd (rev (sort (match_all ''MRMS_ReflectivityAtLowestAltitude_20240101-000000.grib2 MRMS_ReflectivityAtLowestAltitude_20240101-000200.grib2.gz''))) \<and>
           name = Max (set (match_all ''MRMS_ReflectivityAtLowestAltitude_20240101-000000.grib2 MRMS_ReflectivityAtLowestAltitude_20240101-000200.grib2.gz'')) \<and>
           match_file name = Some [] \<and>
           (\<exists>pre' post'. ''MRMS_ReflectivityAtLowestAltitude_20240101-000000.grib2 MRMS_ReflectivityAtLowestAltitude_20240101-000200.grib2.gz'' = pre' @ name @ post') \<and>
           ''MRMS_ReflectivityAtLowestAltitude_20240101-000000.grib2'' \<le> name)"
proof -
  have h1: "''MRMS_ReflectivityAtLowestAltitude_20240101-000000.grib2 MRMS_ReflectivityAtLowestAltitude_20240101-000200.grib2.gz''
     = [] @ ''MRMS_ReflectivityAtLowestAltitude_20240101-000000.grib2''
          @ '' MRMS_ReflectivityAtLowestAltitude_20240101-000200.grib2.gz''"
    by simp
  have h2: "match_file ''MRMS_ReflectivityAtLowestAltitude_20240101-000000.grib2'' = Some []"
    by (simp add: match_file_def lit_def digits_def opt_lit_def PREFIX_def is_digit_def)
  from h1 h2 scanner_selects_greatest [OF h1 h2] show ?thesis
    by (intro conjI)
qed

text \<open>
  The scenario of the two names: the later one, which is the compressed one, is
  selected.
\<close>

lemma scanner_two_names:
  "fetchLatestMRMSFile (Inr ''MRMS_ReflectivityAtLowestAltitude_20240101-000000.grib2 MRMS_ReflectivityAtLowestAltitude_20240101-000200.grib2.gz'')
     = Inr \<lparr>filename = ''MRMS_ReflectivityAtLowestAltitude_20240101-000200.grib2.gz'',
            isCompressed = True\<rparr>"
  by (simp add: fetchLatestMRMSFile_def matched_def endsWith_def match_file_def lit_def
      digits_def opt_lit_def PREFIX_def is_digit_def)

section \<open>The timestamp of a selected name\<close>

lemma match_stamp_nondigit: "\<not> is_digit c \<Longrightarrow> match_stamp (c # cs) = None"
  by (simp add: match_stamp_def digits_def)

lemma match_first_skip:
  "list_all (\<lambda>c. \<not> is_digit c) p \<Longrightarrow> match_first (p @ t) = match_first t"
  by (induction p) (simp_all add: match_stamp_nondigit)

lemma PREFIX_no_digit: "list_all (\<lambda>c. \<not> is_digit c) PREFIX"
  by (simp add: PREFIX_def is_digit_def)

lemma match_stamp_token:
  assumes "length d8 = 8" "list_all is_digit d8" "length d6 = 6" "list_all is_digit d6"
  shows "match_stamp (d8 @ ''-'' @ d6 @ t) = Some t"
proof -
  have "digits 8 (d8 @ ''-'' @ d6 @ t) = Some (''-'' @ d6 @ t)"
    using assms(1,2) by (rule digits_append)
  moreover have "lit ''-'' (''-'' @ d6 @ t) = Some (d6 @ t)"
    by (rule lit_append)
  moreover have "digits 6 (d6 @ t) = Some t"
    using assms(3,4) by (rule digits_append)
  ultimately show ?thesis
    by (simp add: match_stamp_def)
qed

lemma match_first_token:
  assumes "length d8 = 8" "list_all is_digit d8" "length d6 = 6" "list_all is_digit d6"
  shows "match_first (d8 @ ''-'' @ d6 @ t) = Some (d8 @ ''-'' @ d6)"
proof -
  from assms(1) obtain c cs where cs: "d8 = c # cs"
    by (cases d8) auto
  have "(d8 @ ''-'' @ d6) @ t = c # (cs @ ''-'' @ d6 @ t)"
    by (simp add: cs)
  moreover have "match_stamp ((d8 @ ''-'' @ d6) @ t) = Some t"
    using match_stamp_token [OF assms] by simp
  ultimately have "match_first (c # (cs @ ''-'' @ d6 @ t)) = Some (matched ((d8 @ ''-'' @ d6) @ t) t)"
    by simp
  moreover have "matched ((d8 @ ''-'' @ d6) @ t) t = d8 @ ''-'' @ d6"
    by (rule matched_append)
  ultimately show ?thesis
    by (simp add: cs)
qed

lemma match_first_whole:
  assumes "match_file name = Some []"
  shows "match_first name = Some (take 15 (drop 34 name))"
proof -
  from assms obtain d8 d6 where d: "length d8 = 8" "list_all is_digit d8"
    "length d6 = 6" "list_all is_digit d6" and c: "name = stem d8 d6 \<or> name = stem d8 d6 @ ''.gz''"
    unfolding match_file_whole by blast
  from c obtain t where n: "name = PREFIX @ (d8 @ ''-'' @ d6 @ t)"
    by (auto simp: stem_def)
  have "match_first name = match_first (d8 @ ''-'' @ d6 @ t)"
    unfolding n using PREFIX_no_digit by (rule match_first_skip)
  also have "\<dots> = Some (d8 @ ''-'' @ d6)"
    using d by (rule match_first_token)
  also have "d8 @ ''-'' @ d6 = take 15 (drop 34 name)"
    unfolding n using d by (simp add: length_PREFIX)
  finally show ?thesis .
qed

lemma fetchLatest_Inr:
  assumes "fetchLatestMRMSFile r = Inr ref"
  shows "\<exists>page. r = Inr page \<and> filename ref \<in> set (match_all page) \<and>
    isCompressed ref = endsWith (filename ref) ''.gz''"
proof -
  from assms obtain page where r: "r = Inr page"
    by (cases r) (auto simp: fetchLatestMRMSFile_def)
  from assms have ne: "match_all page \<noteq> []"
    and ref: "ref = \<lparr>filename = hd (rev (sort (match_all page))),
      isCompressed = endsWith (hd (rev (sort (match_all page)))) ''.gz''\<rparr>"
    unfolding r by (auto simp: fetchLatestMRMSFile_def Let_def split: if_splits)
  have "hd (rev (sort (match_all page))) = Max (set (match_all page))"
    using ne by (rule last_sort_Max)
  then have "hd (rev (sort (match_all page))) \<in> set (match_all page)"
    using ne by (metis List.finite_set Max_in set_empty)
  with r ref show ?thesis by simp
qed

text \<open>
  C9. For every file the Scanner resolves, \<open>filename.match(/\d{8}-\d{6}/)\<close> is not
  \<open>null\<close>: the match is the 15 characters after the prefix, so taking its element 0
  does not throw.
\<close>

theorem timestamp_extraction_succeeds:
  assumes "fetchLatestMRMSFile r = Inr ref"
  shows "match_first (filename ref) = Some (take 15 (drop 34 (filename ref))) \<and>
    match_first (filename ref) \<noteq> None"
proof -
  from fetchLatest_Inr [OF assms] obtain page where "filename ref \<in> set (match_all page)"
    by blast
  from match_all_mem [OF this] have "match_file (filename ref) = Some []"
    by blast
  then have "match_first (filename ref) = Some (take 15 (drop 34 (filename ref)))"
    by (rule match_first_whole)
  then show ?thesis
    by simp
qed

theorem timestamp_extraction_succeeds_witness:
  "fetchLatestMRMSFile (Inr ''MRMS_ReflectivityAtLowestAltitude_20240101-000200.grib2.gz'')
     = Inr \<lparr>filename = ''MRMS_ReflectivityAtLowestAltitude_20240101-000200.grib2.gz'',
            isCompressed = True\<rparr> \<and>
   match_first (filename \<lparr>filename = ''MRMS_ReflectivityAtLowestAltitude_20240101-000200.grib2.gz'',
            isCompressed = True\<rparr>)
     = Some (take 15 (drop 34 (filename \<lparr>filename = ''MRMS_ReflectivityAtLowestAltitude_20240101-000200.grib2.gz'',
            isCompressed = True\<rparr>))) \<and>
   match_first (filename \<lparr>filename = ''MRMS_ReflectivityAtLowestAltitude_20240101-000200.grib2.gz'',
            isCompressed = True\<rparr>) \<noteq> None"
proof -
  have h: "fetchLatestMRMSFile (Inr ''MRMS_ReflectivityAtLowestAltitude_20240101-000200.grib2.gz'')
     = Inr \<lparr>filename = ''MRMS_ReflectivityAtLowestAltitude_20240101-000200.grib2.gz'',
            isCompressed = True\<rparr>"
    by (simp add: fetchLatestMRMSFile_def matched_def endsWith_def match_file_def lit_def
        digits_def opt_lit_def PREFIX_def is_digit_def)
  from h timestamp_extraction_succeeds [OF h] show ?thesis
    by (intro conjI) simp_all
qed

section \<open>The Fallback Generator, point by point\<close>

lemma storm_loop_from:
  "i \<le> 80 \<Longrightarrow>
   storm_loop rnd st i (points, k) =
     (points @ map (\<lambda>m. storm_point st m (rnd (k + 2 * (m - i))) (rnd (k + 2 * (m - i) + 1))) [i..<80],
      k + 2 * (80 - i))"
proof (induction rnd st i "(points, k)" arbitrary: points k rule: storm_loop.induct)
  case (1 rnd st i points k)
  show ?case
  proof (cases "i < 80")
    case False
    with "1.prems" have "i = 80" by simp
    then show ?thesis by (simp add: storm_loop.simps)
  next
    case True
    then have le: "i + 1 \<le> 80" by simp
    have up: "[i..<80] = i # [i + 1..<80]"
      using True by (simp add: upt_conv_Cons)
    have shift: "map (\<lambda>m. storm_point st m (rnd (k + 2 + 2 * (m - (i + 1)))) (rnd (k + 2 + 2 * (m - (i + 1)) + 1))) [i + 1..<80]
      = map (\<lambda>m. storm_point st m (rnd (k + 2 * (m - i))) (rnd (k + 2 * (m - i) + 1))) [i + 1..<80]"
    proof (rule map_cong [OF refl])
      fix m assume "m \<in> set [i + 1..<80]"
      then have e: "k + 2 + 2 * (m - (i + 1)) = k + 2 * (m - i)"
        by auto
      show "storm_point st m (rnd (k + 2 + 2 * (m - (i + 1)))) (rnd (k + 2 + 2 * (m - (i + 1)) + 1))
        = storm_point st m (rnd (k + 2 * (m - i))) (rnd (k + 2 * (m - i) + 1))"
        by (simp only: e)
    qed
    have k: "k + 2 + 2 * (80 - (i + 1)) = k + 2 * (80 - i)"
      using True by linarith
    have "storm_loop rnd st i (points, k) =
      storm_loop rnd st (i + 1) (points @ [storm_point st i (rnd k) (rnd (k + 1))], k + 2)"
      using True by (subst storm_loop.simps) simp
    also have "\<dots> = ((points @ [storm_point st i (rnd k) (rnd (k + 1))]) @
        map (\<lambda>m. storm_point st m (rnd (k + 2 + 2 * (m - (i + 1)))) (rnd (k + 2 + 2 * (m - (i + 1)) + 1))) [i + 1..<80],
        k + 2 + 2 * (80 - (i + 1)))"
      by (rule "1.hyps" [OF True le])
    also have "\<dots> = (points @ map (\<lambda>m. storm_point st m (rnd (k + 2 * (m - i))) (rnd (k + 2 * (m - i) + 1))) [i..<80],
      k + 2 * (80 - i))"
      unfolding shift k up by simp
    finally show ?thesis .
  qed
qed

lemma storm_loop_0: "storm_loop rnd st 0 (points, k) = (points @ storm_block rnd st k, k + 160)"
  using storm_loop_from [of 0 rnd st points k] by (simp add: storm_block_def)

lemma background_loop_from:
  "i \<le> 150 \<Longrightarrow>
   background_loop rnd i (points, k) =
     (points @ map (\<lambda>m. background_point (rnd (k + 3 * (m - i))) (rnd (k + 3 * (m - i) + 1))
        (rnd (k + 3 * (m - i) + 2))) [i..<150],
      k + 3 * (150 - i))"
proof (induction rnd i "(points, k)" arbitrary: points k rule: background_loop.induct)
  case (1 rnd i points k)
  show ?case
  proof (cases "i < 150")
    case False
    with "1.prems" have "i = 150" by simp
    then show ?thesis by (simp add: background_loop.simps)
  next
    case True
    then have le: "i + 1 \<le> 150" by simp
    have up: "[i..<150] = i # [i + 1..<150]"
      using True by (simp add: upt_conv_Cons)
    have shift: "map (\<lambda>m. background_point (rnd (k + 3 + 3 * (m - (i + 1))))
          (rnd (k + 3 + 3 * (m - (i + 1)) + 1)) (rnd (k + 3 + 3 * (m - (i + 1)) + 2))) [i + 1..<150]
      = map (\<lambda>m. background_point (rnd (k + 3 * (m - i))) (rnd (k + 3 * (m - i) + 1))
          (rnd (k + 3 * (m - i) + 2))) [i + 1..<150]"
    proof (rule map_cong [OF refl])
      fix m assume "m \<in> set [i + 1..<150]"
      then have e: "k + 3 + 3 * (m - (i + 1)) = k + 3 * (m - i)"
        by auto
      show "background_point (rnd (k + 3 + 3 * (m - (i + 1))))
          (rnd (k + 3 + 3 * (m - (i + 1)) + 1)) (rnd (k + 3 + 3 * (m - (i + 1)) + 2))
        = background_point (rnd (k + 3 * (m - i))) (rnd (k + 3 * (m - i) + 1))
          (rnd (k + 3 * (m - i) + 2))"
        by (simp only: e)
    qed
    have k: "k + 3 + 3 * (150 - (i + 1)) = k + 3 * (150 - i)"
      using True by linarith
    have "background_loop rnd i (points, k) =
      background_loop rnd (i + 1)
        (points @ [background_point (rnd k) (rnd (k + 1)) (rnd (k + 2))], k + 3)"
      using True by (subst background_loop.simps) simp
    also have "\<dots> = ((points @ [background_point (rnd k) (rnd (k + 1)) (rnd (k + 2))]) @
        map (\<lambda>m. background_point (rnd (k + 3 + 3 * (m - (i + 1))))
          (rnd (k + 3 + 3 * (m - (i + 1)) + 1)) (rnd (k + 3 + 3 * (m - (i + 1)) + 2))) [i + 1..<150],
        k + 3 + 3 * (150 - (i + 1)))"
      by (rule "1.hyps" [OF True le])
    also have "\<dots> = (points @ map (\<lambda>m. background_point (rnd (k + 3 * (m - i)))
          (rnd (k + 3 * (m - i) + 1)) (rnd (k + 3 * (m - i) + 2))) [i..<150],
      k + 3 * (150 - i))"
      unfolding shift k up by simp
    finally show ?thesis .
  qed
qed

lemma background_loop_0:
  "background_loop rnd 0 (points, k) = (points @ background_block rnd k, k + 450)"
  using background_loop_from [of 0 rnd points k] by (simp add: background_block_def)

lemma length_storm_block: "length (storm_block rnd st k) = 80"
  by (simp add: storm_block_def)

lemma length_background_block: "length (background_block rnd k) = 150"
  by (simp add: background_block_def)

lemma nth_storm_block:
  "i < 80 \<Longrightarrow> storm_block rnd st k ! i = storm_point st i (rnd (k + 2 * i)) (rnd (k + 2 * i + 1))"
  by (simp add: storm_block_def)

lemma nth_background_block:
  "n < 150 \<Longrightarrow> background_block rnd k ! n =
     background_point (rnd (k + 3 * n)) (rnd (k + 3 * n + 1)) (rnd (k + 3 * n + 2))"
  by (simp add: background_block_def)

text \<open>The output, block by block.\<close>

lemma generateFallbackData_blocks:
  "generateFallbackData rnd =
     storm_block rnd (stormCenters ! 0) 0 @ storm_block rnd (stormCenters ! 1) 160 @
     storm_block rnd (stormCenters ! 2) 320 @ storm_block rnd (stormCenters ! 3) 480 @
     storm_block rnd (stormCenters ! 4) 640 @ background_block rnd 800"
  by (simp add: generateFallbackData_def stormCenters_def storm_loop_0 background_loop_0)

lemma length_generateFallbackData: "length (generateFallbackData rnd) = 550"
  by (simp add: generateFallbackData_blocks length_storm_block length_background_block)

lemma nth_storm:
  assumes "c < 5" "i < 80"
  shows "generateFallbackData rnd ! (80 * c + i) =
    storm_point (stormCenters ! c) i (rnd (160 * c + 2 * i)) (rnd (160 * c + 2 * i + 1))"
proof -
  from assms(1) have "c = 0 \<or> c = 1 \<or> c = 2 \<or> c = 3 \<or> c = 4"
    by linarith
  then show ?thesis
    using assms(2)
    by (elim disjE)
      (simp_all add: generateFallbackData_blocks nth_append length_storm_block nth_storm_block)
qed

lemma nth_background:
  assumes "n < 150"
  shows "generateFallbackData rnd ! (400 + n) =
    background_point (rnd (800 + 3 * n)) (rnd (800 + 3 * n + 1)) (rnd (800 + 3 * n + 2))"
  using assms
  by (simp add: generateFallbackData_blocks nth_append length_storm_block nth_background_block)

lemma toFixed_lat_box: "20 \<le> x \<Longrightarrow> x \<le> 55 \<Longrightarrow> 20 \<le> toFixed 4 x \<and> toFixed 4 x \<le> 55"
  using toFixed_ge [of 200000 4 x] toFixed_le [of x 550000 4] by simp

lemma toFixed_lon_box:
  "- 130 \<le> x \<Longrightarrow> x \<le> - 60 \<Longrightarrow> - 130 \<le> toFixed 4 x \<and> toFixed 4 x \<le> - 60"
  using toFixed_ge [of "- 1300000" 4 x] toFixed_le [of x "- 600000" 4] by simp

lemma toFixed_storm_value: "5 \<le> x \<Longrightarrow> x \<le> 75 \<Longrightarrow> 5 \<le> toFixed 1 x \<and> toFixed 1 x \<le> 75"
  using toFixed_ge [of 50 1 x] toFixed_le [of x 750 1] by simp

lemma toFixed_background_value:
  "5 \<le> x \<Longrightarrow> x \<le> 25 \<Longrightarrow> 5 \<le> toFixed 1 x \<and> toFixed 1 x \<le> 25"
  using toFixed_ge [of 50 1 x] toFixed_le [of x 250 1] by simp

lemma toFixed_background_lat:
  "25 \<le> x \<Longrightarrow> x \<le> 50 \<Longrightarrow> 25 \<le> toFixed 4 x \<and> toFixed 4 x \<le> 50"
  using toFixed_ge [of 250000 4 x] toFixed_le [of x 500000 4] by simp

lemma toFixed_background_lon:
  "- 125 \<le> x \<Longrightarrow> x \<le> - 70 \<Longrightarrow> - 125 \<le> toFixed 4 x \<and> toFixed 4 x \<le> - 70"
  using toFixed_ge [of "- 1250000" 4 x] toFixed_le [of x "- 700000" 4] by simp

text \<open>A point at distance \<open>r1 * R\<close> in any direction is at most \<open>R\<close> away on each axis.\<close>

lemma displacement_le:
  fixes r1 R t :: real
  assumes "0 \<le> r1" "r1 < 1" "0 \<le> R" "\<bar>t\<bar> \<le> 1"
  shows "\<bar>r1 * R * t\<bar> \<le> R"
proof -
  have nn: "0 \<le> r1 * R"
    using assms(1,3) by (rule mult_nonneg_nonneg)
  have "\<bar>r1 * R * t\<bar> = \<bar>r1 * R\<bar> * \<bar>t\<bar>"
    by (rule abs_mult)
  also have "\<dots> = (r1 * R) * \<bar>t\<bar>"
    using nn by (simp only: abs_of_nonneg)
  also have "\<dots> \<le> (r1 * R) * 1"
    using assms(4) nn by (rule mult_left_mono)
  also have "\<dots> = r1 * R"
    by simp
  also have "\<dots> \<le> 1 * R"
    using assms(2,3) by (intro mult_right_mono) simp_all
  finally show ?thesis by simp
qed

lemma storm_room:
  assumes "st \<in> set stormCenters"
  shows "0 < radius st \<and> 20 \<le> storm_lat st - radius st \<and> storm_lat st + radius st \<le> 55 \<and>
    - 130 \<le> storm_lon st - radius st \<and> storm_lon st + radius st \<le> - 60"
  using assms by (auto simp: stormCenters_def)

lemma storm_point_fields:
  "lat (storm_point st i r1 r2) = toFixed 4 (storm_lat st + r1 * radius st * cos (pi * 2 * real i / 80))"
  "lon (storm_point st i r1 r2) = toFixed 4 (storm_lon st + r1 * radius st * sin (pi * 2 * real i / 80))"
  "val (storm_point st i r1 r2) =
     toFixed 1 (max 5 (min 75 (intensity st * (1 - r1 * radius st / radius st) + (r2 - 0.5) * 15)))"
  by (simp_all add: storm_point_def Let_def)

lemma storm_point_in_box:
  assumes "st \<in> set stormCenters" "0 \<le> r1" "r1 < 1"
  shows "20 \<le> lat (storm_point st i r1 r2) \<and> lat (storm_point st i r1 r2) \<le> 55 \<and>
    - 130 \<le> lon (storm_point st i r1 r2) \<and> lon (storm_point st i r1 r2) \<le> - 60 \<and>
    5 \<le> val (storm_point st i r1 r2) \<and> val (storm_point st i r1 r2) \<le> 75"
proof -
  define a where "a = pi * 2 * real i / 80"
  from storm_room [OF assms(1)] have R: "0 \<le> radius st"
    and room: "20 \<le> storm_lat st - radius st" "storm_lat st + radius st \<le> 55"
      "- 130 \<le> storm_lon st - radius st" "storm_lon st + radius st \<le> - 60"
    by simp_all
  have "\<bar>r1 * radius st * cos a\<bar> \<le> radius st"
    using assms(2,3) R by (rule displacement_le) simp
  with room have "20 \<le> storm_lat st + r1 * radius st * cos a" "storm_lat st + r1 * radius st * cos a \<le> 55"
    by linarith+
  then have 1: "20 \<le> toFixed 4 (storm_lat st + r1 * radius st * cos a) \<and>
      toFixed 4 (storm_lat st + r1 * radius st * cos a) \<le> 55"
    by (rule toFixed_lat_box)
  have "\<bar>r1 * radius st * sin a\<bar> \<le> radius st"
    using assms(2,3) R by (rule displacement_le) simp
  with room have "- 130 \<le> storm_lon st + r1 * radius st * sin a" "storm_lon st + r1 * radius st * sin a \<le> - 60"
    by linarith+
  then have 2: "- 130 \<le> toFixed 4 (storm_lon st + r1 * radius st * sin a) \<and>
      toFixed 4 (storm_lon st + r1 * radius st * sin a) \<le> - 60"
    by (rule toFixed_lon_box)
  have 3: "5 \<le> val (storm_point st i r1 r2) \<and> val (storm_point st i r1 r2) \<le> 75"
    unfolding storm_point_fields by (rule toFixed_storm_value) simp_all
  from 1 2 3 show ?thesis
    unfolding storm_point_fields a_def by simp
qed

lemma background_point_in_box:
  assumes "0 \<le> r1" "r1 < 1" "0 \<le> r2" "r2 < 1" "0 \<le> r3" "r3 < 1"
  shows "25 \<le> lat (background_point r1 r2 r3) \<and> lat (background_point r1 r2 r3) \<le> 50 \<and>
    - 125 \<le> lon (background_point r1 r2 r3) \<and> lon (background_point r1 r2 r3) \<le> - 70 \<and>
    5 \<le> val (background_point r1 r2 r3) \<and> val (background_point r1 r2 r3) \<le> 25"
proof -
  have "25 \<le> toFixed 4 (25 + r1 * 25) \<and> toFixed 4 (25 + r1 * 25) \<le> 50"
    using assms(1,2) by (intro toFixed_background_lat) simp_all
  moreover have "- 125 \<le> toFixed 4 (- 125 + r2 * 55) \<and> toFixed 4 (- 125 + r2 * 55) \<le> - 70"
    using assms(3,4) by (intro toFixed_background_lon) simp_all
  moreover have "5 \<le> toFixed 1 (5 + r3 * 20) \<and> toFixed 1 (5 + r3 * 20) \<le> 25"
    using assms(5,6) by (intro toFixed_background_value) simp_all
  ultimately show ?thesis
    by (simp add: background_point_def)
qed

lemma unit_sourceD: "unit_source rnd \<Longrightarrow> 0 \<le> rnd k \<and> rnd k < 1"
  by (simp add: unit_source_def)

lemma stormCenters_nth_mem: "c < 5 \<Longrightarrow> stormCenters ! c \<in> set stormCenters"
  by (intro nth_mem) (simp add: stormCenters_def)

text \<open>
  C6. Whatever numbers of \<open>[0, 1)\<close> the pseudo-random source returns, the Fallback
  Generator produces exactly 550 samples; every one has its latitude in \<open>[20, 55]\<close>
  and its longitude in \<open>[-130, -60]\<close>; the first 400, the storm points, have their
  value in \<open>[5, 75]\<close>, and the last 150, the background points, in \<open>[5, 25]\<close>.
\<close>

theorem fallback_550_in_box:
  assumes "unit_source rnd" and "n < 550"
  shows "length (generateFallbackData rnd) = 550 \<and>
    20 \<le> lat (generateFallbackData rnd ! n) \<and> lat (generateFallbackData rnd ! n) \<le> 55 \<and>
    - 130 \<le> lon (generateFallbackData rnd ! n) \<and> lon (generateFallbackData rnd ! n) \<le> - 60 \<and>
    5 \<le> val (generateFallbackData rnd ! n) \<and>
    val (generateFallbackData rnd ! n) \<le> (if n < 400 then 75 else 25)"
proof (cases "n < 400")
  case True
  define c i where "c = n div 80" and "i = n mod 80"
  from True have c: "c < 5" and i: "i < 80" and n: "n = 80 * c + i"
    by (simp_all add: c_def i_def)
  have "generateFallbackData rnd ! n =
      storm_point (stormCenters ! c) i (rnd (160 * c + 2 * i)) (rnd (160 * c + 2 * i + 1))"
    unfolding n using c i by (rule nth_storm)
  moreover note storm_point_in_box [OF stormCenters_nth_mem [OF c], of "rnd (160 * c + 2 * i)" i
      "rnd (160 * c + 2 * i + 1)"] unit_sourceD [OF assms(1), of "160 * c + 2 * i"]
  ultimately show ?thesis
    using True by (simp add: length_generateFallbackData)
next
  case False
  define m where "m = n - 400"
  from False assms(2) have m: "m < 150" and n: "n = 400 + m"
    by (simp_all add: m_def)
  have "generateFallbackData rnd ! n =
      background_point (rnd (800 + 3 * m)) (rnd (800 + 3 * m + 1)) (rnd (800 + 3 * m + 2))"
    unfolding n using m by (rule nth_background)
  moreover have "25 \<le> lat (background_point (rnd (800 + 3 * m)) (rnd (800 + 3 * m + 1)) (rnd (800 + 3 * m + 2))) \<and>
    lat (background_point (rnd (800 + 3 * m)) (rnd (800 + 3 * m + 1)) (rnd (800 + 3 * m + 2))) \<le> 50 \<and>
    - 125 \<le> lon (background_point (rnd (800 + 3 * m)) (rnd (800 + 3 * m + 1)) (rnd (800 + 3 * m + 2))) \<and>
    lon (background_point (rnd (800 + 3 * m)) (rnd (800 + 3 * m + 1)) (rnd (800 + 3 * m + 2))) \<le> - 70 \<and>
    5 \<le> val (background_point (rnd (800 + 3 * m)) (rnd (800 + 3 * m + 1)) (rnd (800 + 3 * m + 2))) \<and>
    val (background_point (rnd (800 + 3 * m)) (rnd (800 + 3 * m + 1)) (rnd (800 + 3 * m + 2))) \<le> 25"
    using unit_sourceD [OF assms(1)] by (intro background_point_in_box) simp_all
  ultimately show ?thesis
    using False by (simp add: length_generateFallbackData)
qed

theorem fallback_550_in_box_witness:
  "unit_source (\<lambda>k. 1 / 2) \<and> (400 :: nat) < 550 \<and>
    length (generateFallbackData (\<lambda>k. 1 / 2)) = 550 \<and>
    20 \<le> lat (generateFallbackData (\<lambda>k. 1 / 2) ! 400) \<and>
    lat (generateFallbackData (\<lambda>k. 1 / 2) ! 400) \<le> 55 \<and>
    - 130 \<le> lon (generateFallbackData (\<lambda>k. 1 / 2) ! 400) \<and>
    lon (generateFallbackData (\<lambda>k. 1 / 2) ! 400) \<le> - 60 \<and>
    5 \<le> val (generateFallbackData (\<lambda>k. 1 / 2) ! 400) \<and>
    val (generateFallbackData (\<lambda>k. 1 / 2) ! 400) \<le> (if (400 :: nat) < 400 then 75 else 25)"
proof -
  have h1: "unit_source (\<lambda>k. 1 / 2)"
    by (simp add: unit_source_def)
  have h2: "(400 :: nat) < 550"
    by simp
  from h1 h2 fallback_550_in_box [OF h1 h2] show ?thesis
    by blast
qed

section \<open>The emitted decimals stay near the exact formulas\<close>

text \<open>
  \<open>storm_point\<close> and \<open>background_point\<close> compute the number given to \<open>toFixed\<close> in
  exact arithmetic, where the code rounds every sum and product to a double. The two
  differ by far less than \<open>10^-9\<close> here, but the emitted decimal can differ in its last
  digit where the exact number is at or next to a tie. So the theorems on storm and
  background points, for every source, state no equation between an emitted decimal
  and a formula: they state bounds, and distances with a margin (\<open>0.00006\<close> for four
  decimals, \<open>0.06\<close> for one) above the half unit of the last decimal, which holds on
  both sides of a tie.
\<close>

lemma round_half_up_close: "\<bar>of_int (round_half_up y) - y\<bar> \<le> 1 / 2"
  unfolding round_half_up_def by linarith

lemma toFixed_close:
  assumes "\<bar>x\<bar> < 10 ^ 21"
  shows "\<bar>toFixed f x - x\<bar> \<le> 1 / (2 * 10 ^ f)"
proof -
  have scale: "\<bar>of_int r / 10 ^ f - y / 10 ^ f\<bar> \<le> 1 / (2 * 10 ^ f)"
    if "\<bar>of_int r - y\<bar> \<le> 1 / 2" for r :: int and y :: real
  proof -
    have "\<bar>of_int r / 10 ^ f - y / 10 ^ f\<bar> = \<bar>of_int r - y\<bar> / 10 ^ f"
      by (simp add: diff_divide_distrib [symmetric])
    also have "\<dots> \<le> (1 / 2) / 10 ^ f"
      using that by (intro divide_right_mono) simp_all
    finally show ?thesis by simp
  qed
  show ?thesis
  proof (cases "x < 0")
    case True
    define r where "r = round_half_up (- x * 10 ^ f)"
    have "\<bar>of_int r - (- x * 10 ^ f)\<bar> \<le> 1 / 2"
      unfolding r_def by (rule round_half_up_close)
    from scale [OF this] have "\<bar>of_int r / 10 ^ f - (- x)\<bar> \<le> 1 / (2 * 10 ^ f)"
      by simp
    moreover have "toFixed f x = - (of_int r / 10 ^ f)"
      using True assms by (simp add: toFixed_def r_def)
    ultimately show ?thesis by simp
  next
    case False
    define r where "r = round_half_up (x * 10 ^ f)"
    have "\<bar>of_int r - x * 10 ^ f\<bar> \<le> 1 / 2"
      unfolding r_def by (rule round_half_up_close)
    from scale [OF this] have "\<bar>of_int r / 10 ^ f - x\<bar> \<le> 1 / (2 * 10 ^ f)"
      by simp
    moreover have "toFixed f x = of_int r / 10 ^ f"
      using False assms by (simp add: toFixed_def r_def)
    ultimately show ?thesis by simp
  qed
qed

text \<open>
  The margin also covers a value \<open>x'\<close> that was computed near \<open>x\<close>, as a sum of doubles
  is near the exact sum.
\<close>

lemma toFixed_near:
  assumes "\<bar>x'\<bar> < 10 ^ 21" and "\<bar>x' - x\<bar> \<le> e"
  shows "\<bar>toFixed f x' - x\<bar> \<le> 1 / (2 * 10 ^ f) + e"
  using toFixed_close [OF assms(1), of f] assms(2) by linarith

lemma toFixed4_margin: "\<bar>x\<bar> < 10 ^ 21 \<Longrightarrow> \<bar>toFixed 4 x - x\<bar> \<le> 6 / 10 ^ 5"
  using toFixed_close [of x 4] by simp

lemma toFixed1_margin: "\<bar>x\<bar> < 10 ^ 21 \<Longrightarrow> \<bar>toFixed 1 x - x\<bar> \<le> 6 / 100"
  using toFixed_close [of x 1] by simp


lemma background_point_near:
  assumes "0 \<le> r1" "r1 < 1" "0 \<le> r2" "r2 < 1" "0 \<le> r3" "r3 < 1"
  shows "\<bar>lat (background_point r1 r2 r3) - (25 + r1 * 25)\<bar> \<le> 6 / 10 ^ 5"
    and "\<bar>lon (background_point r1 r2 r3) - (- 125 + r2 * 55)\<bar> \<le> 6 / 10 ^ 5"
    and "\<bar>val (background_point r1 r2 r3) - (5 + r3 * 20)\<bar> \<le> 6 / 100"
proof -
  have x: "\<bar>25 + r1 * 25\<bar> < 10 ^ 21"
    using assms(1,2) by simp
  have y: "\<bar>- 125 + r2 * 55\<bar> < 10 ^ 21"
    using assms(3,4) by simp
  have v: "\<bar>5 + r3 * 20\<bar> < 10 ^ 21"
    using assms(5,6) by simp
  have f: "lat (background_point r1 r2 r3) = toFixed 4 (25 + r1 * 25)"
    "lon (background_point r1 r2 r3) = toFixed 4 (- 125 + r2 * 55)"
    "val (background_point r1 r2 r3) = toFixed 1 (5 + r3 * 20)"
    by (simp_all add: background_point_def)
  show "\<bar>lat (background_point r1 r2 r3) - (25 + r1 * 25)\<bar> \<le> 6 / 10 ^ 5"
    unfolding f by (rule toFixed4_margin [OF x])
  show "\<bar>lon (background_point r1 r2 r3) - (- 125 + r2 * 55)\<bar> \<le> 6 / 10 ^ 5"
    unfolding f by (rule toFixed4_margin [OF y])
  show "\<bar>val (background_point r1 r2 r3) - (5 + r3 * 20)\<bar> \<le> 6 / 100"
    unfolding f by (rule toFixed1_margin [OF v])
qed




text \<open>
  C8, as amended. The background point number \<open>n\<close> is the sample number \<open>400 + n\<close>.
  Its latitude is within \<open>0.00006\<close> of \<open>25 + 25 * r1\<close> and its longitude within
  \<open>0.00006\<close> of \<open>-125 + 55 * r2\<close>, for random \<open>r1\<close> and \<open>r2\<close> in \<open>[0, 1)\<close>: the points are
  scattered over the latitudes \<open>[25, 50]\<close> and the longitudes \<open>[-125, -70]\<close>, not over the
  whole bounding box. Its value is within \<open>0.06\<close> of \<open>5 + 20 * r3\<close> and in \<open>[5, 25]\<close>.
\<close>

theorem background_points_inner_box:
  assumes "unit_source rnd" and "n < 150"
  shows "(let r1 = rnd (800 + 3 * n);
              r2 = rnd (800 + 3 * n + 1);
              r3 = rnd (800 + 3 * n + 2);
              p = generateFallbackData rnd ! (400 + n)
          in 400 + n < length (generateFallbackData rnd) \<and>
             \<bar>lat p - (25 + r1 * 25)\<bar> \<le> 6 / 10 ^ 5 \<and>
             \<bar>lon p - (- 125 + r2 * 55)\<bar> \<le> 6 / 10 ^ 5 \<and>
             \<bar>val p - (5 + r3 * 20)\<bar> \<le> 6 / 100 \<and>
             25 \<le> lat p \<and> lat p \<le> 50 \<and> - 125 \<le> lon p \<and> lon p \<le> - 70 \<and>
             5 \<le> val p \<and> val p \<le> 25)"
proof -
  define r1 where "r1 = rnd (800 + 3 * n)"
  define r2 where "r2 = rnd (800 + 3 * n + 1)"
  define r3 where "r3 = rnd (800 + 3 * n + 2)"
  have r: "0 \<le> r1" "r1 < 1" "0 \<le> r2" "r2 < 1" "0 \<le> r3" "r3 < 1"
    using unit_sourceD [OF assms(1)] by (simp_all add: r1_def r2_def r3_def)
  have p: "generateFallbackData rnd ! (400 + n) = background_point r1 r2 r3"
    unfolding r1_def r2_def r3_def using assms(2) by (rule nth_background)
  have "400 + n < length (generateFallbackData rnd)"
    using assms(2) by (simp add: length_generateFallbackData)
  moreover note background_point_near [OF r] background_point_in_box [OF r]
  ultimately show ?thesis
    unfolding Let_def p r1_def [symmetric] r2_def [symmetric] r3_def [symmetric]
    by (intro conjI) simp_all
qed

theorem background_points_inner_box_witness:
  "unit_source (\<lambda>k. 1 / 2) \<and> (0 :: nat) < 150 \<and>
   (let r1 = (\<lambda>k. 1 / 2) (800 + 3 * (0 :: nat));
              r2 = (\<lambda>k. 1 / 2) (800 + 3 * (0 :: nat) + 1);
              r3 = (\<lambda>k. 1 / 2) (800 + 3 * (0 :: nat) + 2);
              p = generateFallbackData (\<lambda>k. 1 / 2) ! (400 + (0 :: nat))
          in 400 + (0 :: nat) < length (generateFallbackData (\<lambda>k. 1 / 2)) \<and>
             \<bar>lat p - (25 + r1 * 25)\<bar> \<le> 6 / 10 ^ 5 \<and>
             \<bar>lon p - (- 125 + r2 * 55)\<bar> \<le> 6 / 10 ^ 5 \<and>
             \<bar>val p - (5 + r3 * 20)\<bar> \<le> 6 / 100 \<and>
             25 \<le> lat p \<and> lat p \<le> 50 \<and> - 125 \<le> lon p \<and> lon p \<le> - 70 \<and>
             5 \<le> val p \<and> val p \<le> 25)"
proof -
  have h1: "unit_source (\<lambda>k. 1 / 2)"
    by (simp add: unit_source_def)
  have h2: "(0 :: nat) < 150"
    by simp
  from h1 h2 background_points_inner_box [OF h1 h2] show ?thesis
    by blast
qed

text \<open>
  C8 as stated fails. With the smallest number the source can return, \<open>0\<close>, the first
  background point is at latitude 25 and longitude -125, not at the corner
  \<open>(20, -130)\<close> of the bounding box; with the largest double below 1 it is at latitude
  50 and longitude -70, not at \<open>(55, -60)\<close>.
\<close>

theorem background_extremes: "generateFallbackData (\<lambda>k. 0) ! 400 = \<lparr>lat = 25, lon = - 125, val = 5\<rparr> \<and>
  generateFallbackData (\<lambda>k. 1 - 1 / 2 ^ 53) ! 400 = \<lparr>lat = 50, lon = - 70, val = 25\<rparr>"
  using nth_background [of 0 "\<lambda>k. 0"] nth_background [of 0 "\<lambda>k. 1 - 1 / 2 ^ 53"]
  by (simp add: background_point_def toFixed_def round_half_up_def)

section \<open>The cache\<close>

text \<open>
  C3. When a snapshot is cached and fewer than 120000 ms have passed since
  \<open>lastFetchTime\<close>, the handler answers with the cached snapshot as it is, leaves the
  cache as it is and makes no call: neither the Scanner nor the Fetcher runs.
\<close>

theorem cache_hit_returns_cached:
  assumes "cachedData c = Some snap" and "now - lastFetchTime c < 120000"
  shows "radar_latest w now c = (Json snap, c, [])"
  using assms by (simp add: radar_latest_def CACHE_DURATION_def)

theorem cache_hit_returns_cached_witness:
  "cachedData \<lparr>cachedData = Some \<lparr>timestamp = ''20240101-000000'', data = Points [],
       count = Some 0, source = ''MRMS RALA (Live)''\<rparr>, lastFetchTime = 1000\<rparr>
     = Some \<lparr>timestamp = ''20240101-000000'', data = Points [],
       count = Some 0, source = ''MRMS RALA (Live)''\<rparr> \<and>
   2000 - lastFetchTime \<lparr>cachedData = Some \<lparr>timestamp = ''20240101-000000'', data = Points [],
       count = Some 0, source = ''MRMS RALA (Live)''\<rparr>, lastFetchTime = 1000\<rparr> < 120000 \<and>
   radar_latest (example_world (Inl DecoderError)) 2000
       \<lparr>cachedData = Some \<lparr>timestamp = ''20240101-000000'', data = Points [],
          count = Some 0, source = ''MRMS RALA (Live)''\<rparr>, lastFetchTime = 1000\<rparr>
     = (Json \<lparr>timestamp = ''20240101-000000'', data = Points [],
          count = Some 0, source = ''MRMS RALA (Live)''\<rparr>,
        \<lparr>cachedData = Some \<lparr>timestamp = ''20240101-000000'', data = Points [],
          count = Some 0, source = ''MRMS RALA (Live)''\<rparr>, lastFetchTime = 1000\<rparr>,
        [])"
proof -
  have h1: "cachedData \<lparr>cachedData = Some \<lparr>timestamp = ''20240101-000000'', data = Points [],
       count = Some 0, source = ''MRMS RALA (Live)''\<rparr>, lastFetchTime = 1000\<rparr>
     = Some \<lparr>timestamp = ''20240101-000000'', data = Points [],
       count = Some 0, source = ''MRMS RALA (Live)''\<rparr>"
    by simp
  have h2: "2000 - lastFetchTime \<lparr>cachedData = Some \<lparr>timestamp = ''20240101-000000'', data = Points [],
       count = Some 0, source = ''MRMS RALA (Live)''\<rparr>, lastFetchTime = 1000\<rparr> < 120000"
    by simp
  from h1 h2 cache_hit_returns_cached [OF h1 h2] show ?thesis
    by (intro conjI)
qed

text \<open>A refresh stores its snapshot with the time of the request, and always answers 200.\<close>

lemma refresh_cache:
  assumes "refresh w now = (r, c', calls)"
  shows "\<exists>snap. r = Json snap \<and> c' = \<lparr>cachedData = Some snap, lastFetchTime = now\<rparr>"
  using assms by (auto simp: refresh_def Let_def split: prod.splits sum.splits)

lemma radar_latest_Json: "\<exists>snap c' calls. radar_latest w now c = (Json snap, c', calls)"
proof -
  obtain r c' calls where "refresh w now = (r, c', calls)"
    by (cases "refresh w now") auto
  with refresh_cache [OF this] show ?thesis
    by (auto simp: radar_latest_def split: option.splits)
qed

text \<open>
  A request on the empty cache at \<open>t0\<close>, then a request less than 120000 ms later: the
  second one gets the snapshot of the first and makes no call.
\<close>

lemma second_request_within_ttl:
  assumes "radar_latest w t0 initial_cache = (r, c1, calls)" and "t1 - t0 < 120000"
  shows "\<exists>snap. r = Json snap \<and> radar_latest w' t1 c1 = (Json snap, c1, [])"
proof -
  from assms(1) have "refresh w t0 = (r, c1, calls)"
    by (simp add: radar_latest_def initial_cache_def)
  from refresh_cache [OF this] obtain snap where
    "r = Json snap" "c1 = \<lparr>cachedData = Some snap, lastFetchTime = t0\<rparr>"
    by blast
  with assms(2) show ?thesis
    by (simp add: radar_latest_def CACHE_DURATION_def)
qed

section \<open>GET /api/health reads the cache only\<close>

lemma floor_ms: "\<lfloor>real_of_int d / 1000\<rfloor> = d div 1000"
  using floor_divide_of_int_eq [of d 1000] by simp

text \<open>
  C10. A health request leaves \<open>cachedData\<close> and \<open>lastFetchTime\<close> as they are, and so
  does any sequence of health requests. It reports \<open>cached\<close> as whether a snapshot is
  there, and \<open>cacheAge\<close> as the whole seconds since \<open>lastFetchTime\<close>, rounded down, when
  one is there and \<open>null\<close> otherwise.
\<close>

theorem health_reads_only:
  "snd (api_health isoString now c) = c \<and>
   cached (fst (api_health isoString now c)) = (cachedData c \<noteq> None) \<and>
   cacheAge (fst (api_health isoString now c)) =
     (if cachedData c = None then None else Some ((now - lastFetchTime c) div 1000)) \<and>
   fold (\<lambda>(s, t) c'. snd (api_health s t c')) reqs c = c"
proof -
  have "fold (\<lambda>(s, t) c'. snd (api_health s t c')) reqs c = c"
    by (induction reqs) (simp_all add: api_health_def split: prod.splits)
  then show ?thesis
    by (simp add: api_health_def floor_ms split: option.splits del: of_int_diff)
qed

section \<open>The live path keeps a promise\<close>

text \<open>
  When the listing or the download fails, the handler catches the error and answers
  with the 550 generated points, labelled as generated.
\<close>

lemma caught_failure_falls_back:
  assumes "fetchLatestMRMSFile (listing w) = Inl e \<or>
    (\<exists>ref. fetchLatestMRMSFile (listing w) = Inr ref \<and>
       downloadMRMSFile (file_body w) (gunzip w) (filename ref) (isCompressed ref) = Inl e)"
  shows "\<exists>calls. refresh w now =
    (Json \<lparr>timestamp = fallback_timestamp (isoNow w),
            data = Points (generateFallbackData (random w)),
            count = Some 550, source = ''Generated (MRMS unavailable)''\<rparr>,
     \<lparr>cachedData = Some \<lparr>timestamp = fallback_timestamp (isoNow w),
            data = Points (generateFallbackData (random w)),
            count = Some 550, source = ''Generated (MRMS unavailable)''\<rparr>,
      lastFetchTime = now\<rparr>,
     calls @ [GenerateFallbackData])"
  using assms
  by (auto simp: refresh_def try_live_def Let_def length_generateFallbackData split: sum.splits)

text \<open>The timestamp of a live snapshot is the token of the selected name.\<close>

lemma selected_name_stamp:
  assumes "fetchLatestMRMSFile r = Inr ref"
  shows "match_first (filename ref) = Some (take 15 (drop 34 (filename ref)))"
proof -
  from fetchLatest_Inr [OF assms] obtain page where "filename ref \<in> set (match_all page)"
    by blast
  from match_all_mem [OF this] have "match_file (filename ref) = Some []"
    by blast
  then show ?thesis
    by (rule match_first_whole)
qed

text \<open>
  When the listing and the download succeed, \<open>radarPoints\<close> is the promise of
  \<open>parseGRIB2Buffer\<close>: the answer is labelled live and has no \<open>count\<close>, whatever the
  decoder does, and the Fallback Generator is not called.
\<close>

lemma live_label_whatever_decoder:
  assumes "fetchLatestMRMSFile (listing w) = Inr ref"
    and "downloadMRMSFile (file_body w) (gunzip w) (filename ref) (isCompressed ref) = Inr buffer"
  shows "refresh w now =
    (Json \<lparr>timestamp = take 15 (drop 34 (filename ref)),
            data = Promise (parseGRIB2Buffer (parseBuffer w) buffer),
            count = None, source = ''MRMS RALA (Live)''\<rparr>,
     \<lparr>cachedData = Some \<lparr>timestamp = take 15 (drop 34 (filename ref)),
            data = Promise (parseGRIB2Buffer (parseBuffer w) buffer),
            count = None, source = ''MRMS RALA (Live)''\<rparr>,
      lastFetchTime = now\<rparr>,
     [FetchLatestMRMSFile, DownloadMRMSFile (filename ref) (isCompressed ref), ParseGRIB2Buffer])"
  using assms selected_name_stamp [OF assms(1)]
  by (simp add: refresh_def try_live_def Let_def)

text \<open>
  C1, at an input where the code fails it. The cache is empty, the listing and the
  download succeed and the decoder gives one message with the single value 40. The
  promise of \<open>parseGRIB2Buffer\<close> settles with one sample, but the snapshot holds the
  promise itself as \<open>data\<close> and \<open>undefined\<close> as \<open>count\<close>: \<open>count\<close> is not the number of
  samples.
\<close>

theorem live_snapshot_count_undefined:
  "radar_latest
     (example_world (Inr [\<lparr>header_ni = Some 1, header_nj = Some 1, msg_data = [40]\<rparr>]))
     1000 initial_cache =
   (Json \<lparr>timestamp = ''20240101-000000'',
          data = Promise (Inr [\<lparr>lat = 20, lon = - 130, val = 40\<rparr>]),
          count = None, source = ''MRMS RALA (Live)''\<rparr>,
    \<lparr>cachedData = Some \<lparr>timestamp = ''20240101-000000'',
          data = Promise (Inr [\<lparr>lat = 20, lon = - 130, val = 40\<rparr>]),
          count = None, source = ''MRMS RALA (Live)''\<rparr>,
     lastFetchTime = 1000\<rparr>,
    [FetchLatestMRMSFile,
     DownloadMRMSFile ''MRMS_ReflectivityAtLowestAltitude_20240101-000000.grib2'' False,
     ParseGRIB2Buffer])"
  by (simp add: example_world_def radar_latest_def initial_cache_def refresh_def try_live_def
      Let_def fetchLatestMRMSFile_def matched_def endsWith_def match_file_def match_stamp_def
      lit_def digits_def opt_lit_def PREFIX_def is_digit_def downloadMRMSFile_def
      parseGRIB2Buffer_def project_def or_default_def row_loop.simps column_loop.simps
      visit_def cell_point_def toFixed_def round_half_up_def minLat_def minLon_def
      sampleRate_def)

text \<open>
  C2, at an input where the code fails it. The cache is empty, the listing and the
  download succeed and the decoder rejects the buffer. The promise of
  \<open>parseGRIB2Buffer\<close> is rejected, but nothing awaits it: the handler does not catch the
  error, does not call the Fallback Generator, and answers with a snapshot labelled
  \<open>MRMS RALA (Live)\<close>.
\<close>

theorem decode_failure_not_caught:
  "radar_latest (example_world (Inl DecoderError)) 1000 initial_cache =
   (Json \<lparr>timestamp = ''20240101-000000'', data = Promise (Inl ParseFailed),
          count = None, source = ''MRMS RALA (Live)''\<rparr>,
    \<lparr>cachedData = Some \<lparr>timestamp = ''20240101-000000'', data = Promise (Inl ParseFailed),
          count = None, source = ''MRMS RALA (Live)''\<rparr>,
     lastFetchTime = 1000\<rparr>,
    [FetchLatestMRMSFile,
     DownloadMRMSFile ''MRMS_ReflectivityAtLowestAltitude_20240101-000000.grib2'' False,
     ParseGRIB2Buffer])"
  by (simp add: example_world_def radar_latest_def initial_cache_def refresh_def try_live_def
      Let_def fetchLatestMRMSFile_def matched_def endsWith_def match_file_def match_stamp_def
      lit_def digits_def opt_lit_def PREFIX_def is_digit_def downloadMRMSFile_def
      parseGRIB2Buffer_def)

end
